theory Spec2Isabelle
  imports Main "HOL-Library.Sublist"
begin

section \<open>Documents, characters and the string primitives the detectors use\<close>

text \<open>
  A document is a Python \<open>str\<close>. It is modelled as a \<open>string\<close> (a list of \<open>char\<close>), so a
  character is a code point below 256; the character classes below are the ones Python
  gives to these code points (\<open>str.isspace\<close>, the \<open>\s\<close> and \<open>\w\<close> classes of \<open>re\<close> on
  \<open>str\<close> patterns, the line boundaries of \<open>str.splitlines\<close>).
  Python integers are \<open>int\<close>; positions inside a string are \<open>nat\<close>.
\<close>

datatype error = IndexError

abbreviation NL :: char where "NL \<equiv> CHR 0x0A"
abbreviation CR :: char where "CR \<equiv> CHR 0x0D"

definition is_space :: "char \<Rightarrow> bool" where
  "is_space c =
     (let n = (of_char c :: nat)
      in (9 \<le> n \<and> n \<le> 13) \<or> (28 \<le> n \<and> n \<le> 32) \<or> n = 133 \<or> n = 160)"

definition is_word :: "char \<Rightarrow> bool" where
  "is_word c =
     (let n = (of_char c :: nat)
      in (48 \<le> n \<and> n \<le> 57) \<or> (65 \<le> n \<and> n \<le> 90) \<or> n = 95 \<or> (97 \<le> n \<and> n \<le> 122)
         \<or> n = 170 \<or> n = 178 \<or> n = 179 \<or> n = 181 \<or> n = 185 \<or> n = 186
         \<or> (188 \<le> n \<and> n \<le> 190) \<or> (192 \<le> n \<and> n \<le> 214) \<or> (216 \<le> n \<and> n \<le> 246)
         \<or> 248 \<le> n)"

definition is_ident_start :: "char \<Rightarrow> bool" where
  \<comment> \<open>the class \<open>[A-Za-z_]\<close>\<close>
  "is_ident_start c =
     (let n = (of_char c :: nat)
      in (65 \<le> n \<and> n \<le> 90) \<or> n = 95 \<or> (97 \<le> n \<and> n \<le> 122))"

definition is_linebreak :: "char \<Rightarrow> bool" where
  \<comment> \<open>the one-character line boundaries of \<open>str.splitlines\<close>\<close>
  "is_linebreak c =
     (let n = (of_char c :: nat)
      in (10 \<le> n \<and> n \<le> 13) \<or> (28 \<le> n \<and> n \<le> 30) \<or> n = 133)"

definition lower :: "char \<Rightarrow> char" where
  \<comment> \<open>case folding of \<open>re.I\<close>, as far as it can reach an ASCII letter of a pattern\<close>
  "lower c =
     (let n = (of_char c :: nat) in if 65 \<le> n \<and> n \<le> 90 then char_of (n + 32) else c)"

definition ci_prefix :: "string \<Rightarrow> string \<Rightarrow> bool" where
  \<comment> \<open>the lower-case literal \<open>kw\<close> matches at the head of \<open>s\<close>, ignoring case\<close>
  "ci_prefix kw s = (length kw \<le> length s \<and> map lower (take (length kw) s) = kw)"

definition boundary_after :: "string \<Rightarrow> bool" where
  \<comment> \<open>\<open>\b\<close> after a word character: the rest is empty or starts with a non-word character\<close>
  "boundary_after r = (case r of [] \<Rightarrow> True | c # _ \<Rightarrow> \<not> is_word c)"

definition kw_here :: "string \<Rightarrow> string \<Rightarrow> bool" where
  \<comment> \<open>\<open>kw\b\<close> at the head of \<open>r\<close>, ignoring case\<close>
  "kw_here kw r = (ci_prefix kw r \<and> boundary_after (drop (length kw) r))"

definition lstrip :: "string \<Rightarrow> string" where
  "lstrip s = dropWhile is_space s"

definition rstrip :: "string \<Rightarrow> string" where
  "rstrip s = rev (dropWhile is_space (rev s))"

definition strip :: "string \<Rightarrow> string" where
  "strip s = rstrip (lstrip s)"

definition rstrip_nl :: "string \<Rightarrow> string" where
  \<comment> \<open>\<open>s.rstrip("\n")\<close>\<close>
  "rstrip_nl s = rev (dropWhile (\<lambda>c. c = NL) (rev s))"

definition startswith :: "string \<Rightarrow> string \<Rightarrow> bool" where
  "startswith s p = (take (length p) s = p)"

definition endswith :: "string \<Rightarrow> string \<Rightarrow> bool" where
  "endswith s p = (length p \<le> length s \<and> drop (length s - length p) s = p)"

definition count_char :: "char \<Rightarrow> string \<Rightarrow> nat" where
  "count_char c s = length (filter (\<lambda>x. x = c) s)"

fun splitlines_from :: "string \<Rightarrow> string \<Rightarrow> string list" where
  \<comment> \<open>\<open>splitlines_from cur s\<close>: the lines of \<open>s\<close>, the first one continuing \<open>cur\<close>\<close>
  "splitlines_from cur [] = (if cur = [] then [] else [cur])"
| "splitlines_from cur [c] = [cur @ [c]]"
| "splitlines_from cur (c # d # cs) =
     (if c = CR \<and> d = NL then (cur @ [c, d]) # splitlines_from [] cs
      else if is_linebreak c then (cur @ [c]) # splitlines_from [] (d # cs)
      else splitlines_from (cur @ [c]) (d # cs))"

definition splitlines :: "string \<Rightarrow> string list" where
  \<comment> \<open>\<open>s.splitlines(True)\<close>: the line boundaries are kept\<close>
  "splitlines s = splitlines_from [] s"

function decimal :: "nat \<Rightarrow> string" where
  "decimal n = (if n < 10 then [char_of (48 + n)] else decimal (n div 10) @ [char_of (48 + n mod 10)])"
  by pat_completeness auto
termination
  by (relation "measure id") auto

definition str_int :: "int \<Rightarrow> string" where
  \<comment> \<open>\<open>str(i)\<close>, as an f-string prints a line number\<close>
  "str_int i = (if i < 0 then CHR ''-'' # decimal (nat (- i)) else decimal (nat i))"


definition py_index :: "nat \<Rightarrow> int \<Rightarrow> nat option" where
  \<comment> \<open>the position a Python index \<open>i\<close> names in a list of \<open>n\<close> elements: from the front
      when it is not negative, from the end when it is, none when it is out of range\<close>
  "py_index n i =
     (if 0 \<le> i \<and> i < int n then Some (nat i)
      else if - int n \<le> i \<and> i < 0 then Some (nat (int n + i))
      else None)"

definition list_at :: "'a list \<Rightarrow> int \<Rightarrow> error + 'a" where
  \<comment> \<open>\<open>xs[i]\<close>, which raises \<open>IndexError\<close> out of range\<close>
  "list_at xs i =
     (case py_index (length xs) i of None \<Rightarrow> Inl IndexError | Some j \<Rightarrow> Inr (xs ! j))"

definition list_set :: "'a list \<Rightarrow> int \<Rightarrow> 'a \<Rightarrow> error + 'a list" where
  \<comment> \<open>\<open>xs[i] = v\<close>\<close>
  "list_set xs i v =
     (case py_index (length xs) i of None \<Rightarrow> Inl IndexError | Some j \<Rightarrow> Inr (xs[j := v]))"

definition list_insert :: "'a list \<Rightarrow> int \<Rightarrow> 'a \<Rightarrow> 'a list" where
  \<comment> \<open>\<open>xs.insert(i, v)\<close>: the index is clamped to the list, it never raises\<close>
  "list_insert xs i v =
     (let n = int (length xs); j = nat (if i < 0 then max 0 (n + i) else min n i)
      in take j xs @ [v] @ drop j xs)"

definition char_at :: "string \<Rightarrow> nat \<Rightarrow> error + char" where
  \<comment> \<open>\<open>doc[i]\<close> at a non-negative index\<close>
  "char_at doc i = (if i < length doc then Inr (doc ! i) else Inl IndexError)"

fun find_first :: "(char \<Rightarrow> bool) \<Rightarrow> string \<Rightarrow> nat option" where
  \<comment> \<open>the index of the first character of a class, as \<open>re.search\<close> of a one-character
      class gives it\<close>
  "find_first P [] = None"
| "find_first P (c # cs) =
     (if P c then Some 0 else map_option Suc (find_first P cs))"

fun find_str :: "string \<Rightarrow> nat \<Rightarrow> string \<Rightarrow> nat option" where
  \<comment> \<open>\<open>re.search\<close> of a literal: the index of its first occurrence, counted from \<open>i\<close>\<close>
  "find_str p i [] = (if p = [] then Some i else None)"
| "find_str p i (c # cs) =
     (if startswith (c # cs) p then Some i else find_str p (Suc i) cs)"

definition at_dollar :: "string \<Rightarrow> bool" where
  \<comment> \<open>\<open>$\<close> without \<open>re.M\<close>: at the end of the string, or just before a final newline\<close>
  "at_dollar r = (r = [] \<or> r = [NL])"

section \<open>Issue model\<close>

record issue =
  kind :: string
  message :: string
  line :: int
  span :: "int \<times> int"
  fix_preview :: "string option"
  apply_fn :: "(string \<Rightarrow> error + string) option"

definition issue_key :: "issue \<Rightarrow> string \<times> int \<times> string \<times> (int \<times> int)" where
  "issue_key it = (kind it, line it, message it, span it)"

section \<open>The top-level token pattern\<close>

definition top_level_keywords :: "string list" where
  "top_level_keywords =
     [''class'', ''function'', ''event'', ''state'', ''defaultproperties'', ''var'',
      ''struct'', ''enum'', ''cpptext'', ''replication'']"

definition top_level_here :: "string \<Rightarrow> bool" where
  \<comment> \<open>\<open>\s*(class|function|...)\b\<close> matches at the head of \<open>r\<close>: the keyword cannot start
      in white space, so \<open>\s*\<close> takes the whole run\<close>
  "top_level_here r = list_ex (\<lambda>kw. kw_here kw (lstrip r)) top_level_keywords"

fun top_level_from :: "bool \<Rightarrow> nat \<Rightarrow> string \<Rightarrow> nat option" where
  \<comment> \<open>the candidate start positions in order; \<open>bol\<close>: the position is a line start
      (\<open>^\<close> under \<open>(?m)\<close>: the start of the string, or just after a newline)\<close>
  "top_level_from bol i [] = None"
| "top_level_from bol i (c # cs) =
     (if bol \<and> top_level_here (c # cs) then Some i
      else top_level_from (c = NL) (Suc i) cs)"

definition top_level_search :: "string \<Rightarrow> nat option" where
  \<comment> \<open>\<open>re.search(RULES["regex"]["top_level_tokens"], s, re.I)\<close>: the start of the match\<close>
  "top_level_search s = top_level_from True 0 s"

section \<open>Detector: brace-balance\<close>

definition count_braces :: "string \<Rightarrow> int" where
  \<comment> \<open>the loop \<open>for ch in doc\<close> of \<open>safe_close_balance\<close>\<close>
  "count_braces doc =
     foldl (\<lambda>n ch. if ch = CHR ''{'' then n + 1 else if ch = CHR ''}'' then n - 1 else n) 0 doc"

definition safe_close_balance_apply :: "string \<Rightarrow> error + string" where
  "safe_close_balance_apply doc_in =
     (let insert_at = (case top_level_search doc_in of Some s \<Rightarrow> s | None \<Rightarrow> length doc_in)
      in Inr (take insert_at doc_in @ ''}\<newline>'' @ drop insert_at doc_in))"

definition safe_close_balance :: "string \<Rightarrow> issue list" where
  "safe_close_balance doc =
     (let open_count = count_braces doc
      in if open_count < 0 then
           [\<lparr>kind = ''brace-balance'', message = ''Too many '' @ [CHR 0x27] @ ''}'' @ [CHR 0x27] @ '' braces found.'',
             line = 1, span = (0, min 50 (int (length doc))),
             fix_preview = None, apply_fn = None\<rparr>]
         else if open_count > 0 then
           [\<lparr>kind = ''brace-balance'',
             message = ''Unbalanced braces: more '' @ [CHR 0x27] @ ''{'' @ [CHR 0x27] @ '' than ''
                       @ [CHR 0x27] @ ''}'' @ [CHR 0x27] @ ''.'',
             line = 1, span = (0, min 50 (int (length doc))),
             fix_preview = None, apply_fn = Some safe_close_balance_apply\<rparr>]
         else [])"

section \<open>Detector: cpptext-brace\<close>

fun kw_search_from :: "string \<Rightarrow> bool \<Rightarrow> nat \<Rightarrow> string \<Rightarrow> nat option" where
  \<comment> \<open>\<open>\bkw\b\<close> tried at each position in order; \<open>prev_word\<close>: the character before the
      position is a word character, so that \<open>\b\<close> fails in front of the keyword\<close>
  "kw_search_from kw prev_word i [] = None"
| "kw_search_from kw prev_word i (c # cs) =
     (if \<not> prev_word \<and> kw_here kw (c # cs) then Some i
      else kw_search_from kw (is_word c) (Suc i) cs)"

definition kw_search :: "string \<Rightarrow> string \<Rightarrow> nat option" where
  \<comment> \<open>\<open>re.search(r"\bkw\b", s, re.I)\<close>: the start of the match\<close>
  "kw_search kw s = kw_search_from kw False 0 s"

definition blank_or_comment :: "string \<Rightarrow> bool" where
  \<comment> \<open>\<open>re.match(r"^\s*(//.*)?$", s)\<close>: only white space, or white space and then a
      \<open>//\<close> comment that runs to the end (\<open>.\<close> does not match a newline)\<close>
  "blank_or_comment s =
     (let r = lstrip s
      in r = [] \<or> (startswith r ''//'' \<and> NL \<notin> set (butlast (drop 2 r))))"

definition opens_brace :: "string \<Rightarrow> bool" where
  \<comment> \<open>\<open>re.match(r"\s*\{", s)\<close>\<close>
  "opens_brace s = (case lstrip s of [] \<Rightarrow> False | c # _ \<Rightarrow> c = CHR ''{'')"

function skip_blank_lines :: "string list \<Rightarrow> nat \<Rightarrow> error + nat" where
  \<comment> \<open>the loop \<open>while j < len(lines) and re.match(..., lines[j]): j += 1\<close>\<close>
  "skip_blank_lines lines j =
     (if j < length lines then
        (case list_at lines (int j) of
           Inl e \<Rightarrow> Inl e
         | Inr l \<Rightarrow> if blank_or_comment l then skip_blank_lines lines (j + 1) else Inr j)
      else Inr j)"
  by pat_completeness auto
termination
  by (relation "measure (\<lambda>(lines, j). length lines - j)") auto

definition find_cpptext_missing_brace_apply :: "int \<Rightarrow> string \<Rightarrow> error + string" where
  "find_cpptext_missing_brace_apply anchor doc_in =
     (let dlines = splitlines doc_in; idx = anchor - 1
      in Inr (concat (list_insert dlines (idx + 1) ''{\<newline>'')))"

definition cpptext_issue :: "int \<Rightarrow> nat \<Rightarrow> string \<Rightarrow> issue" where
  "cpptext_issue line_no offs ln =
     \<lparr>kind = ''cpptext-brace'',
      message = ''Missing '' @ [CHR 0x27] @ ''{'' @ [CHR 0x27] @ '' after '' @ [CHR 0x27] @ ''cpptext''
                @ [CHR 0x27] @ '' at line '' @ str_int line_no @ ''.'',
      line = line_no, span = (int offs, int offs + int (length ln)),
      fix_preview = None, apply_fn = Some (find_cpptext_missing_brace_apply line_no)\<rparr>"

fun cpptext_lines :: "string list \<Rightarrow> nat \<Rightarrow> nat \<Rightarrow> string list \<Rightarrow> error + issue list" where
  \<comment> \<open>the loop \<open>for i, line in enumerate(lines)\<close>: \<open>lines\<close> is the whole list, the last
      argument the lines from index \<open>i\<close> on, \<open>offs\<close> the offset of line \<open>i\<close>\<close>
  "cpptext_lines lines i offs [] = Inr []"
| "cpptext_lines lines i offs (ln # rest) =
     (if kw_search ''cpptext'' ln \<noteq> None then
        (if CHR ''{'' \<in> set ln then cpptext_lines lines (i + 1) (offs + length ln) rest
         else
           (case skip_blank_lines lines (i + 1) of
              Inl e \<Rightarrow> Inl e
            | Inr j \<Rightarrow>
               (case (if j < length lines then list_at lines (int j) else Inr []) of
                  Inl e \<Rightarrow> Inl e
                | Inr next_line \<Rightarrow>
                   (case cpptext_lines lines (i + 1) (offs + length ln) rest of
                      Inl e \<Rightarrow> Inl e
                    | Inr found \<Rightarrow>
                       if \<not> opens_brace next_line
                       then Inr (cpptext_issue (int i + 1) offs ln # found)
                       else Inr found))))
      else cpptext_lines lines (i + 1) (offs + length ln) rest)"

definition find_cpptext_missing_brace :: "string \<Rightarrow> error + issue list" where
  "find_cpptext_missing_brace doc =
     (let lines = splitlines doc in cpptext_lines lines 0 0 lines)"

section \<open>Detector: defaultprops-brace\<close>

fun kw_finditer_from :: "string \<Rightarrow> nat \<Rightarrow> bool \<Rightarrow> nat \<Rightarrow> string \<Rightarrow> (nat \<times> nat) list" where
  \<comment> \<open>\<open>re.finditer(r"\bkw\b", s, re.I)\<close>: the (start, end) of the matches, left to right
      and not overlapping; \<open>skip\<close> counts the characters left before the end of the
      previous match, where the search goes on\<close>
  "kw_finditer_from kw skip prev_word i [] = []"
| "kw_finditer_from kw skip prev_word i (c # cs) =
     (if skip = 0 \<and> \<not> prev_word \<and> kw_here kw (c # cs)
      then (i, i + length kw) # kw_finditer_from kw (length kw - 1) (is_word c) (Suc i) cs
      else kw_finditer_from kw (skip - 1) (is_word c) (Suc i) cs)"

definition kw_finditer :: "string \<Rightarrow> string \<Rightarrow> (nat \<times> nat) list" where
  "kw_finditer kw s = kw_finditer_from kw 0 False 0 s"

definition check_defaultproperties_apply :: "nat \<Rightarrow> string \<Rightarrow> error + string" where
  "check_defaultproperties_apply pos doc_in =
     Inr (take pos doc_in @ '' {\<newline>}\<newline>'' @ drop pos doc_in)"

definition defaultprops_issue :: "string \<Rightarrow> nat \<times> nat \<Rightarrow> issue" where
  "defaultprops_issue doc m =
     (let m_start = fst m; m_end = snd m;
          start = max 0 (int m_start - 5);
          end_offs = min (int (length doc)) (int m_end + 5);
          line_no = int (count_char NL (take m_start doc)) + 1
      in \<lparr>kind = ''defaultprops-brace'',
          message = [CHR 0x27] @ ''defaultproperties'' @ [CHR 0x27] @ '' at line '' @ str_int line_no
                    @ '' should be followed by '' @ [CHR 0x27] @ ''{...}'' @ [CHR 0x27] @ ''.'',
          line = line_no, span = (start, end_offs),
          fix_preview = None, apply_fn = Some (check_defaultproperties_apply m_end)\<rparr>)"

fun defaultprops_matches :: "string \<Rightarrow> (nat \<times> nat) list \<Rightarrow> issue list" where
  \<comment> \<open>the loop \<open>for m in re.finditer(...)\<close>\<close>
  "defaultprops_matches doc [] = []"
| "defaultprops_matches doc (m # ms) =
     (if \<not> opens_brace (drop (snd m) doc)
      then defaultprops_issue doc m # defaultprops_matches doc ms
      else defaultprops_matches doc ms)"

definition check_defaultproperties :: "string \<Rightarrow> issue list" where
  "check_defaultproperties doc = defaultprops_matches doc (kw_finditer ''defaultproperties'' doc)"

section \<open>Detector: semicolon-missing\<close>

definition assign_value :: "string \<Rightarrow> bool" where
  \<comment> \<open>\<open>\s*[^;]+$\<close> at the head of \<open>r\<close>: at least one character and no semicolon
      (\<open>[^;]\<close> also takes white space and a final newline)\<close>
  "assign_value r = (r \<noteq> [] \<and> CHR '';'' \<notin> set r)"

definition assign_match :: "string \<Rightarrow> bool" where
  \<comment> \<open>\<open>re.match(r"^[A-Za-z_]\w*\s*=\s*[^;]+$", s)\<close>\<close>
  "assign_match s =
     (case s of
        [] \<Rightarrow> False
      | c # r \<Rightarrow>
         is_ident_start c \<and>
         (case dropWhile is_space (dropWhile is_word r) of
            [] \<Rightarrow> False
          | e # r3 \<Rightarrow> e = CHR ''='' \<and> assign_value r3))"

definition is_name_char :: "char \<Rightarrow> bool" where
  \<comment> \<open>the class \<open>[\w\[\]]\<close>\<close>
  "is_name_char c = (is_word c \<or> c = CHR ''['' \<or> c = CHR '']'')"

definition var_tail :: "string \<Rightarrow> bool" where
  \<comment> \<open>\<open>\s+[\w\[\]]+(\s*=\s*[^;]+)?$\<close> at the head of \<open>r\<close>\<close>
  "var_tail r =
     (let r1 = dropWhile is_space r; r2 = dropWhile is_name_char r1
      in r1 \<noteq> r \<and> r2 \<noteq> r1 \<and>
         (at_dollar r2 \<or>
          (case dropWhile is_space r2 of
             [] \<Rightarrow> False
           | e # r4 \<Rightarrow> e = CHR ''='' \<and> assign_value r4)))"

definition var_item :: "string \<Rightarrow> string option" where
  \<comment> \<open>one round of \<open>(\s+\w+|\([^)]*\))\<close> at the head of \<open>r\<close>: what is left after it\<close>
  "var_item r =
     (case r of
        [] \<Rightarrow> None
      | c # r1 \<Rightarrow>
         if c = CHR ''('' then
           (case dropWhile (\<lambda>x. x \<noteq> CHR '')'') r1 of [] \<Rightarrow> None | _ # r3 \<Rightarrow> Some r3)
         else
           (let r2 = dropWhile is_space r; r3 = dropWhile is_word r2
            in if r2 \<noteq> r \<and> r3 \<noteq> r2 then Some r3 else None))"

function var_rest :: "string \<Rightarrow> bool" where
  \<comment> \<open>\<open>(\s+\w+|\([^)]*\))*\s+[\w\[\]]+(\s*=\s*[^;]+)?$\<close> at the head of \<open>r\<close>: the tail is
      tried after every number of rounds, as backtracking does\<close>
  "var_rest r =
     (var_tail r \<or> (case var_item r of None \<Rightarrow> False | Some r' \<Rightarrow> var_rest r'))"
  by pat_completeness auto
termination
proof (relation "measure length")
  show "wf (measure length)" by simp
next
  fix r r' :: string
  assume a: "var_item r = Some r'"
  have less: "length (dropWhile P xs) < length xs" if "dropWhile P xs \<noteq> xs" for P and xs :: string
    using that by (induction xs) (auto simp: less_Suc_eq_le length_dropWhile_le split: if_splits)
  have "length r' < length r"
  proof (cases r)
    case Nil
    with a show ?thesis by (simp add: var_item_def)
  next
    case (Cons c r1)
    show ?thesis
    proof (cases "c = CHR ''(''")
      case True
      with a Cons obtain x where "dropWhile (\<lambda>x. x \<noteq> CHR '')'') r1 = x # r'"
        by (auto simp: var_item_def split: list.splits)
      then have "length (x # r') \<le> length r1"
        by (metis length_dropWhile_le)
      with Cons show ?thesis by simp
    next
      case False
      with a Cons have d: "dropWhile is_space r \<noteq> r"
        and r': "r' = dropWhile is_word (dropWhile is_space r)"
        by (auto simp: var_item_def Let_def split: if_splits)
      have "length r' \<le> length (dropWhile is_space r)"
        unfolding r' by (rule length_dropWhile_le)
      with less [OF d] show ?thesis by simp
    qed
  qed
  then show "(r', r) \<in> measure length" by simp
qed

definition var_decl_match :: "string \<Rightarrow> bool" where
  \<comment> \<open>\<open>re.match(r"^(var(\s+\w+|\([^)]*\))*)\s+[\w\[\]]+(\s*=\s*[^;]+)?$", s, re.I)\<close>\<close>
  "var_decl_match s = (ci_prefix ''var'' s \<and> var_rest (drop 3 s))"

fun find_comment_from :: "nat \<Rightarrow> string \<Rightarrow> nat option" where
  \<comment> \<open>the first position where \<open>(//.*)$\<close> matches: \<open>//\<close> with no newline after it
      before the end (a final newline apart)\<close>
  "find_comment_from i [] = None"
| "find_comment_from i (c # cs) =
     (if startswith (c # cs) ''//'' \<and> NL \<notin> set (butlast (drop 2 (c # cs))) then Some i
      else find_comment_from (Suc i) cs)"

definition comment_split :: "string \<Rightarrow> string list" where
  \<comment> \<open>\<open>re.split(r"(//.*)$", s)\<close>: one part when there is no match, else the text before
      the match, the match, and what follows it (empty, or the final newline)\<close>
  "comment_split s =
     (case find_comment_from 0 s of
        None \<Rightarrow> [s]
      | Some k \<Rightarrow>
         (let e = (if endswith (drop (k + 2) s) [NL] then length s - 1 else length s)
          in [take k s, take (e - k) (drop k s), drop e s]))"

definition check_semicolons_strict_apply :: "int \<Rightarrow> string \<Rightarrow> error + string" where
  "check_semicolons_strict_apply anchor doc_in =
     (let d = splitlines doc_in; idx = anchor - 1
      in if idx < int (length d) then
           (case list_at d idx of
              Inl e \<Rightarrow> Inl e
            | Inr l \<Rightarrow>
               if endswith (rstrip l) '';'' then Inr doc_in
               else
                 (let parts = comment_split l;
                      new = (if length parts = 3
                             then rstrip (rstrip_nl (parts ! 0)) @ '';'' @ parts ! 1 @ ''\<newline>''
                             else rstrip (rstrip_nl l) @ '';\<newline>'')
                  in case list_set d idx new of
                       Inl e \<Rightarrow> Inl e
                     | Inr d' \<Rightarrow> Inr (concat d')))
         else Inr (concat d))"

definition semicolon_issue :: "int \<Rightarrow> nat \<Rightarrow> string \<Rightarrow> issue" where
  "semicolon_issue line_no offs ln =
     \<lparr>kind = ''semicolon-missing'',
      message = ''Likely missing '' @ [CHR 0x27] @ '';'' @ [CHR 0x27] @ '' at line '' @ str_int line_no @ ''.'',
      line = line_no, span = (int offs, int offs + int (length ln)),
      fix_preview = None, apply_fn = Some (check_semicolons_strict_apply line_no)\<rparr>"

fun semicolon_lines :: "nat \<Rightarrow> nat \<Rightarrow> string list \<Rightarrow> issue list" where
  \<comment> \<open>the loop \<open>for i, line in enumerate(lines)\<close>\<close>
  "semicolon_lines i offs [] = []"
| "semicolon_lines i offs (ln # rest) =
     (let stripped = strip ln
      in if stripped = [] \<or> startswith stripped ''//'' \<or> endswith stripped ''{''
            \<or> endswith stripped ''}'' \<or> startswith stripped ''/*''
         then semicolon_lines (i + 1) (offs + length ln) rest
         else if (var_decl_match stripped \<or> assign_match stripped) \<and> \<not> endswith stripped '';''
         then semicolon_issue (int i + 1) offs ln # semicolon_lines (i + 1) (offs + length ln) rest
         else semicolon_lines (i + 1) (offs + length ln) rest)"

definition check_semicolons_strict :: "string \<Rightarrow> issue list" where
  "check_semicolons_strict doc = semicolon_lines 0 0 (splitlines doc)"

section \<open>Detector: paren-control-close (extended)\<close>

definition control_line :: "string \<Rightarrow> bool" where
  \<comment> \<open>\<open>CONTROL_LINE.search(s)\<close>, the pattern \<open>^\s*(if|while|for)\s*\(\<close> under \<open>re.I\<close>:
      without \<open>re.M\<close> it can only match at the start of the string\<close>
  "control_line s =
     (let r = lstrip s
      in list_ex (\<lambda>kw. ci_prefix kw r \<and>
                        (case lstrip (drop (length kw) r) of [] \<Rightarrow> False | c # _ \<Rightarrow> c = CHR ''(''))
           [''if'', ''while'', ''for''])"

definition extended_control_paren_balance_apply :: "int \<Rightarrow> string \<Rightarrow> error + string" where
  "extended_control_paren_balance_apply anchor doc_in =
     (let d = splitlines doc_in; idx = anchor - 1
      in case list_at d idx of
           Inl e \<Rightarrow> Inl e
         | Inr l \<Rightarrow>
            (let s = rstrip_nl l;
                 s' = (case find_str ''//'' 0 s of
                         Some insert_at \<Rightarrow> rstrip (take insert_at s) @ '')'' @ '' '' @ drop insert_at s
                       | None \<Rightarrow> rstrip s @ '')'')
             in case list_set d idx (s' @ ''\<newline>'') of
                  Inl e \<Rightarrow> Inl e
                | Inr d' \<Rightarrow> Inr (concat d')))"

definition control_paren_issue :: "int \<Rightarrow> nat \<Rightarrow> string \<Rightarrow> issue" where
  "control_paren_issue line_no offs ln =
     \<lparr>kind = ''paren-control-close'',
      message = ''Control statement may be missing a '' @ [CHR 0x27] @ '')'' @ [CHR 0x27] @ '' at line ''
                @ str_int line_no @ ''.'',
      line = line_no, span = (int offs, int offs + int (length ln)),
      fix_preview = None, apply_fn = Some (extended_control_paren_balance_apply line_no)\<rparr>"

fun control_paren_lines :: "nat \<Rightarrow> nat \<Rightarrow> string list \<Rightarrow> issue list" where
  \<comment> \<open>the loop \<open>for i, line in enumerate(lines)\<close>\<close>
  "control_paren_lines i offs [] = []"
| "control_paren_lines i offs (ln # rest) =
     (if \<not> control_line ln then control_paren_lines (i + 1) (offs + length ln) rest
      else
        (let opens = int (count_char (CHR ''('') ln); closes = int (count_char (CHR '')'') ln)
         in if opens - closes = 1
            then control_paren_issue (int i + 1) offs ln
                 # control_paren_lines (i + 1) (offs + length ln) rest
            else control_paren_lines (i + 1) (offs + length ln) rest))"

definition extended_control_paren_balance :: "string \<Rightarrow> issue list" where
  "extended_control_paren_balance doc = control_paren_lines 0 0 (splitlines doc)"

section \<open>Detector: struct-enum-close (extended)\<close>

definition last_brace_end :: "string \<Rightarrow> nat option" where
  \<comment> \<open>\<open>[^\n]*\{\<close> at the head of \<open>r\<close>: the length of the match, which ends after the
      last \<open>{\<close> before the first newline\<close>
  "last_brace_end r =
     (let seg = takeWhile (\<lambda>c. c \<noteq> NL) r
      in case find_first (\<lambda>c. c = CHR ''{'') (rev seg) of
           None \<Rightarrow> None
         | Some k \<Rightarrow> Some (length seg - k))"

definition struct_enum_here :: "string \<Rightarrow> (nat \<times> string) option" where
  \<comment> \<open>\<open>\s*(struct|enum)\b[^\n]*\{\<close> at the head of \<open>r\<close>: the length of the match and the
      text of group 1\<close>
  "struct_enum_here r =
     (let r1 = lstrip r; ws = length r - length r1
      in if kw_here ''struct'' r1 then
           (case last_brace_end (drop 6 r1) of
              None \<Rightarrow> None
            | Some k \<Rightarrow> Some (ws + 6 + k, take 6 r1))
         else if kw_here ''enum'' r1 then
           (case last_brace_end (drop 4 r1) of
              None \<Rightarrow> None
            | Some k \<Rightarrow> Some (ws + 4 + k, take 4 r1))
         else None)"

fun struct_enum_finditer_from ::
  "nat \<Rightarrow> bool \<Rightarrow> nat \<Rightarrow> string \<Rightarrow> (nat \<times> nat \<times> string) list" where
  \<comment> \<open>\<open>re.finditer(r"(?im)^\s*(struct|enum)\b[^\n]*\{", text)\<close>: (start, end, group 1) of
      the matches; \<open>skip\<close> and \<open>bol\<close> as in \<open>kw_finditer_from\<close> and \<open>top_level_from\<close>\<close>
  "struct_enum_finditer_from skip bol i [] = []"
| "struct_enum_finditer_from skip bol i (c # cs) =
     (if skip = 0 \<and> bol then
        (case struct_enum_here (c # cs) of
           Some (len, g) \<Rightarrow>
             (i, i + len, g) # struct_enum_finditer_from (len - 1) (c = NL) (Suc i) cs
         | None \<Rightarrow> struct_enum_finditer_from 0 (c = NL) (Suc i) cs)
      else struct_enum_finditer_from (skip - 1) (c = NL) (Suc i) cs)"

definition struct_enum_finditer :: "string \<Rightarrow> (nat \<times> nat \<times> string) list" where
  "struct_enum_finditer text = struct_enum_finditer_from 0 True 0 text"

definition is_brace :: "char \<Rightarrow> bool" where
  "is_brace c = (c = CHR ''{'' \<or> c = CHR ''}'')"

function brace_walk :: "string \<Rightarrow> nat \<Rightarrow> int \<Rightarrow> error + (nat \<times> int)" where
  \<comment> \<open>the loop \<open>while True\<close> of \<open>extended_struct_enum_closer\<close>: \<open>pos\<close> and \<open>count\<close> when it
      is left\<close>
  "brace_walk text pos count =
     (case find_first is_brace (drop pos text) of
        None \<Rightarrow> Inr (pos, count)
      | Some k \<Rightarrow>
         (case char_at text (pos + k) of
            Inl e \<Rightarrow> Inl e
          | Inr c \<Rightarrow>
             (let pos' = pos + k + 1;
                  count' = (if c = CHR ''{'' then count + 1 else count - 1)
              in if count' = 0 then Inr (pos', count') else brace_walk text pos' count')))"
  by pat_completeness auto
termination
  by (relation "measure (\<lambda>(text, pos, count). length text - pos)")
     (auto simp: char_at_def split: if_splits)

definition extended_struct_enum_closer_apply :: "nat \<Rightarrow> string \<Rightarrow> error + string" where
  "extended_struct_enum_closer_apply ia doc_in =
     Inr (take ia doc_in @ ''}\<newline>'' @ drop ia doc_in)"

definition struct_enum_issue :: "string \<Rightarrow> nat \<times> nat \<times> string \<Rightarrow> nat \<Rightarrow> issue" where
  "struct_enum_issue text m pos =
     (let m_start = fst m; m_end = fst (snd m); group1 = snd (snd m);
          insert_at = (case top_level_search (drop pos text) of
                         Some s \<Rightarrow> pos + s
                       | None \<Rightarrow> length text);
          line_no = int (count_char NL (take m_start text)) + 1
      in \<lparr>kind = ''struct-enum-close'',
          message = ''Missing '' @ [CHR 0x27] @ ''}'' @ [CHR 0x27] @ '' to close '' @ group1
                    @ '' block starting at line '' @ str_int line_no @ ''.'',
          line = line_no, span = (int m_start, int m_end),
          fix_preview = None, apply_fn = Some (extended_struct_enum_closer_apply insert_at)\<rparr>)"

fun struct_enum_matches :: "string \<Rightarrow> (nat \<times> nat \<times> string) list \<Rightarrow> error + issue list" where
  \<comment> \<open>the loop \<open>for m in re.finditer(...)\<close>\<close>
  "struct_enum_matches text [] = Inr []"
| "struct_enum_matches text (m # ms) =
     (case brace_walk text (fst (snd m)) 1 of
        Inl e \<Rightarrow> Inl e
      | Inr (pos, count) \<Rightarrow>
         (case struct_enum_matches text ms of
            Inl e \<Rightarrow> Inl e
          | Inr found \<Rightarrow>
             if count \<noteq> 0 then Inr (struct_enum_issue text m pos # found) else Inr found))"

definition extended_struct_enum_closer :: "string \<Rightarrow> error + issue list" where
  "extended_struct_enum_closer doc = struct_enum_matches doc (struct_enum_finditer doc)"

section \<open>Detector: paren-extra-close (extended)\<close>

text \<open>The nested helpers \<open>skip_line_comment\<close>, \<open>skip_block_comment\<close> and \<open>skip_string\<close> are written twice in the source, with the same text, in \<open>extended_unmatched_close_paren\<close> and in \<open>extended_unmatched_open_paren\<close>; \<open>line\<close> is their \<open>nonlocal\<close> variable, passed in and returned here.\<close>

function skip_line_comment :: "string \<Rightarrow> nat \<Rightarrow> error + nat" where
  "skip_line_comment doc j =
     (if j < length doc then
        (case char_at doc j of
           Inl e \<Rightarrow> Inl e
         | Inr c \<Rightarrow> if c \<noteq> NL then skip_line_comment doc (j + 1) else Inr j)
      else Inr j)"
  by pat_completeness auto
termination
  by (relation "measure (\<lambda>(doc, j). length doc - j)") auto

declare skip_line_comment.simps [simp del]

function block_comment_loop :: "string \<Rightarrow> nat \<Rightarrow> int \<Rightarrow> error + nat \<times> int" where
  "block_comment_loop doc j ln =
     (if j + 1 < length doc then
        (case char_at doc j of
           Inl e \<Rightarrow> Inl e
         | Inr a \<Rightarrow>
            if a = CHR ''*'' then
              (case char_at doc (j + 1) of
                 Inl e \<Rightarrow> Inl e
               | Inr b \<Rightarrow>
                  if b = CHR ''/'' then Inr (min (j + 2) (length doc), ln)
                  else block_comment_loop doc (j + 1) ln)
            else block_comment_loop doc (j + 1) (if a = NL then ln + 1 else ln))
      else Inr (min (j + 2) (length doc), ln))"
  by pat_completeness auto
termination
  by (relation "measure (\<lambda>(doc, j, ln). length doc - j)") auto

declare block_comment_loop.simps [simp del]

definition skip_block_comment :: "string \<Rightarrow> nat \<Rightarrow> int \<Rightarrow> error + nat \<times> int" where
  "skip_block_comment doc j ln = block_comment_loop doc (j + 2) ln"

function string_loop :: "string \<Rightarrow> nat \<Rightarrow> char \<Rightarrow> int \<Rightarrow> error + nat \<times> int" where
  "string_loop doc j quote ln =
     (if j < length doc then
        (case char_at doc j of
           Inl e \<Rightarrow> Inl e
         | Inr a \<Rightarrow>
            if a = CHR 0x5C then string_loop doc (j + 2) quote ln
            else if a = quote then Inr (j + 1, ln)
            else string_loop doc (j + 1) quote (if a = NL then ln + 1 else ln))
      else Inr (j, ln))"
  by pat_completeness auto
termination
  by (relation "measure (\<lambda>(doc, j, quote, ln). length doc - j)") auto

declare string_loop.simps [simp del]

definition skip_string :: "string \<Rightarrow> nat \<Rightarrow> char \<Rightarrow> int \<Rightarrow> error + nat \<times> int" where
  "skip_string doc j quote ln = string_loop doc (j + 1) quote ln"

lemma skip_line_comment_ge: "skip_line_comment doc j = Inr j' \<Longrightarrow> j \<le> j'"
proof (induction doc j rule: skip_line_comment.induct)
  case (1 doc j)
  show ?case
  proof (cases "j < length doc \<and> doc ! j \<noteq> NL")
    case True
    with "1.prems" have "skip_line_comment doc (j + 1) = Inr j'"
      by (subst (asm) skip_line_comment.simps) (simp add: char_at_def)
    with True "1.IH" [of "doc ! j"] have "j + 1 \<le> j'"
      by (simp add: char_at_def)
    then show ?thesis by simp
  next
    case False
    with "1.prems" show ?thesis
      by (subst (asm) skip_line_comment.simps) (auto simp: char_at_def split: if_splits)
  qed
qed

lemma block_comment_loop_ge:
  "block_comment_loop doc j ln = Inr (j', ln') \<Longrightarrow> min (j + 2) (length doc) \<le> j'"
proof (induction doc j ln rule: block_comment_loop.induct)
  case (1 doc j ln)
  show ?case
  proof (cases "j + 1 < length doc")
    case False
    with "1.prems" show ?thesis
      by (subst (asm) block_comment_loop.simps) simp
  next
    case True
    then have ca: "char_at doc j = Inr (doc ! j)" "char_at doc (j + 1) = Inr (doc ! (j + 1))"
      by (simp_all add: char_at_def)
    show ?thesis
    proof (cases "doc ! j = CHR ''*''")
      case star: True
      show ?thesis
      proof (cases "doc ! (j + 1) = CHR ''/''")
        case True
        with "1.prems" star ca \<open>j + 1 < length doc\<close> show ?thesis
          by (subst (asm) block_comment_loop.simps) simp
      next
        case False
        with "1.prems" star ca \<open>j + 1 < length doc\<close>
        have "block_comment_loop doc (j + 1) ln = Inr (j', ln')"
          by (subst (asm) block_comment_loop.simps) simp
        with "1.IH"(1) [OF \<open>j + 1 < length doc\<close> ca(1) star ca(2) False]
        show ?thesis by simp
      qed
    next
      case False
      with "1.prems" ca \<open>j + 1 < length doc\<close>
      have "block_comment_loop doc (j + 1) (if doc ! j = NL then ln + 1 else ln) = Inr (j', ln')"
        by (subst (asm) block_comment_loop.simps) simp
      with "1.IH"(2) [OF \<open>j + 1 < length doc\<close> ca(1) False]
      show ?thesis by simp
    qed
  qed
qed

lemma string_loop_ge: "string_loop doc j q ln = Inr (j', ln') \<Longrightarrow> j \<le> j'"
proof (induction doc j q ln rule: string_loop.induct)
  case (1 doc j q ln)
  show ?case
  proof (cases "j < length doc")
    case False
    with "1.prems" show ?thesis
      by (subst (asm) string_loop.simps) simp
  next
    case True
    then have ca: "char_at doc j = Inr (doc ! j)"
      by (simp add: char_at_def)
    show ?thesis
    proof (cases "doc ! j = CHR 0x5C")
      case bs: True
      with "1.prems" ca True have "string_loop doc (j + 2) q ln = Inr (j', ln')"
        by (subst (asm) string_loop.simps) simp
      with "1.IH"(1) [OF True ca bs] show ?thesis by simp
    next
      case False
      show ?thesis
      proof (cases "doc ! j = q")
        case True
        with "1.prems" ca False \<open>j < length doc\<close> show ?thesis
          by (subst (asm) string_loop.simps) simp
      next
        case nq: False
        with "1.prems" ca False \<open>j < length doc\<close>
        have "string_loop doc (j + 1) q (if doc ! j = NL then ln + 1 else ln) = Inr (j', ln')"
          by (subst (asm) string_loop.simps) simp
        with "1.IH"(2) [OF \<open>j < length doc\<close> ca False nq] show ?thesis by simp
      qed
    qed
  qed
qed

lemma skip_block_comment_gt:
  "skip_block_comment doc i ln = Inr (j, ln') \<Longrightarrow> i < length doc \<Longrightarrow> i < j"
  using block_comment_loop_ge [of doc "i + 2" ln j ln'] by (simp add: skip_block_comment_def)

lemma skip_string_gt: "skip_string doc i q ln = Inr (j, ln') \<Longrightarrow> i < j"
  using string_loop_ge [of doc "i + 1" q ln j ln'] by (simp add: skip_string_def)

definition next_is :: "string \<Rightarrow> nat \<Rightarrow> char \<Rightarrow> error + bool" where
  \<comment> \<open>the condition \<open>i + 1 < n and doc[i+1] == x\<close>\<close>
  "next_is doc i x =
     (if i + 1 < length doc then
        (case char_at doc (i + 1) of Inl e \<Rightarrow> Inl e | Inr d \<Rightarrow> Inr (d = x))
      else Inr False)"

definition extended_unmatched_close_paren_apply :: "nat \<Rightarrow> string \<Rightarrow> error + string" where
  "extended_unmatched_close_paren_apply pos doc_in = Inr (take pos doc_in @ drop (pos + 1) doc_in)"

definition unmatched_close_issue :: "nat \<Rightarrow> int \<Rightarrow> issue" where
  "unmatched_close_issue idx line_no =
     \<lparr>kind = ''paren-extra-close'',
      message = ''Unmatched '' @ [CHR 0x27] @ '')'' @ [CHR 0x27] @ '' at line '' @ str_int line_no @ ''.'',
      line = line_no, span = (int idx, int idx + 1),
      fix_preview = None, apply_fn = Some (extended_unmatched_close_paren_apply idx)\<rparr>"

function close_loop :: "string \<Rightarrow> nat \<Rightarrow> int \<Rightarrow> int \<Rightarrow> error + issue list" where
  \<comment> \<open>the loop \<open>while i < n\<close> of \<open>extended_unmatched_close_paren\<close>, from the state
      \<open>i\<close>, \<open>depth\<close>, \<open>line\<close>; it returns at the first unmatched \<open>)\<close>\<close>
  "close_loop doc i depth ln =
     (if i < length doc then
        (case char_at doc i of
           Inl e \<Rightarrow> Inl e
         | Inr c \<Rightarrow>
            if c = NL then close_loop doc (i + 1) depth (ln + 1)
            else
              (case (if c = CHR ''/'' then next_is doc i (CHR ''/'') else Inr False) of
                 Inl e \<Rightarrow> Inl e
               | Inr is_line_comment \<Rightarrow>
                  if is_line_comment then
                    (case skip_line_comment doc (i + 2) of
                       Inl e \<Rightarrow> Inl e
                     | Inr j \<Rightarrow> close_loop doc j depth ln)
                  else
                    (case (if c = CHR ''/'' then next_is doc i (CHR ''*'') else Inr False) of
                       Inl e \<Rightarrow> Inl e
                     | Inr is_block_comment \<Rightarrow>
                        if is_block_comment then
                          (case skip_block_comment doc i ln of
                             Inl e \<Rightarrow> Inl e
                           | Inr (j, ln') \<Rightarrow> close_loop doc j depth ln')
                        else if c = CHR 0x27 \<or> c = CHR 0x22 then
                          (case skip_string doc i c ln of
                             Inl e \<Rightarrow> Inl e
                           | Inr (j, ln') \<Rightarrow> close_loop doc j depth ln')
                        else if c = CHR ''('' then close_loop doc (i + 1) (depth + 1) ln
                        else if c = CHR '')'' then
                          (if depth = 0 then Inr [unmatched_close_issue i ln]
                           else close_loop doc (i + 1) (depth - 1) ln)
                        else close_loop doc (i + 1) depth ln)))
      else Inr [])"
  by pat_completeness auto
termination
proof (relation "measure (\<lambda>(doc, i, depth, ln). length doc - i)", goal_cases)
  case (3 doc i depth ln c is_lc j)
  from skip_line_comment_ge [OF 3(6)] 3(1) show ?case by simp
next
  case (4 doc i depth ln c is_lc is_bc res j ln')
  then have "skip_block_comment doc i ln = Inr (j, ln')" by simp
  from skip_block_comment_gt [OF this] 4(1) show ?case by simp
next
  case (5 doc i depth ln c is_lc is_bc res j ln')
  then have "skip_string doc i c ln = Inr (j, ln')" by simp
  from skip_string_gt [OF this] 5(1) show ?case by simp
qed simp_all

declare close_loop.simps [simp del]

definition extended_unmatched_close_paren :: "string \<Rightarrow> error + issue list" where
  "extended_unmatched_close_paren doc = close_loop doc 0 0 1"

section \<open>Detector: paren-extra-open (its own toggle)\<close>

function open_loop ::
  "string \<Rightarrow> nat \<Rightarrow> (nat \<times> int) list \<Rightarrow> int \<Rightarrow> error + (nat \<times> int) list" where
  \<comment> \<open>the loop \<open>while i < n\<close> of \<open>extended_unmatched_open_paren\<close>: the stack when it is
      left; \<open>append\<close> adds at the end of the list and \<open>pop\<close> removes the last element\<close>
  "open_loop doc i stack ln =
     (if i < length doc then
        (case char_at doc i of
           Inl e \<Rightarrow> Inl e
         | Inr c \<Rightarrow>
            if c = NL then open_loop doc (i + 1) stack (ln + 1)
            else
              (case (if c = CHR ''/'' then next_is doc i (CHR ''/'') else Inr False) of
                 Inl e \<Rightarrow> Inl e
               | Inr is_line_comment \<Rightarrow>
                  if is_line_comment then
                    (case skip_line_comment doc (i + 2) of
                       Inl e \<Rightarrow> Inl e
                     | Inr j \<Rightarrow> open_loop doc j stack ln)
                  else
                    (case (if c = CHR ''/'' then next_is doc i (CHR ''*'') else Inr False) of
                       Inl e \<Rightarrow> Inl e
                     | Inr is_block_comment \<Rightarrow>
                        if is_block_comment then
                          (case skip_block_comment doc i ln of
                             Inl e \<Rightarrow> Inl e
                           | Inr (j, ln') \<Rightarrow> open_loop doc j stack ln')
                        else if c = CHR 0x27 \<or> c = CHR 0x22 then
                          (case skip_string doc i c ln of
                             Inl e \<Rightarrow> Inl e
                           | Inr (j, ln') \<Rightarrow> open_loop doc j stack ln')
                        else if c = CHR ''('' then open_loop doc (i + 1) (stack @ [(i, ln)]) ln
                        else if c = CHR '')'' then
                          open_loop doc (i + 1) (if stack \<noteq> [] then butlast stack else stack) ln
                        else open_loop doc (i + 1) stack ln)))
      else Inr stack)"
  by pat_completeness auto
termination
proof (relation "measure (\<lambda>(doc, i, stack, ln). length doc - i)", goal_cases)
  case (3 doc i stack ln c is_lc j)
  from skip_line_comment_ge [OF 3(6)] 3(1) show ?case by simp
next
  case (4 doc i stack ln c is_lc is_bc res j ln')
  then have "skip_block_comment doc i ln = Inr (j, ln')" by simp
  from skip_block_comment_gt [OF this] 4(1) show ?case by simp
next
  case (5 doc i stack ln c is_lc is_bc res j ln')
  then have "skip_string doc i c ln = Inr (j, ln')" by simp
  from skip_string_gt [OF this] 5(1) show ?case by simp
qed simp_all

declare open_loop.simps [simp del]

definition extended_unmatched_open_paren_apply :: "nat \<Rightarrow> string \<Rightarrow> error + string" where
  "extended_unmatched_open_paren_apply pos doc_in = Inr (take pos doc_in @ drop (pos + 1) doc_in)"

definition unmatched_open_issue :: "nat \<Rightarrow> int \<Rightarrow> issue" where
  "unmatched_open_issue idx line_no =
     \<lparr>kind = ''paren-extra-open'',
      message = ''Unmatched '' @ [CHR 0x27] @ ''('' @ [CHR 0x27] @ '' at line '' @ str_int line_no @ ''.'',
      line = line_no, span = (int idx, int idx + 1),
      fix_preview = None, apply_fn = Some (extended_unmatched_open_paren_apply idx)\<rparr>"

definition extended_unmatched_open_paren :: "string \<Rightarrow> error + issue list" where
  "extended_unmatched_open_paren doc =
     (case open_loop doc 0 [] 1 of
        Inl e \<Rightarrow> Inl e
      | Inr stack \<Rightarrow>
         if stack = [] then Inr []
         else
           (case list_at stack (- 1) of
              Inl e \<Rightarrow> Inl e
            | Inr (idx, line_no) \<Rightarrow> Inr [unmatched_open_issue idx line_no]))"

section \<open>Scanning\<close>

definition paren_balance_issues :: "string \<Rightarrow> issue list" where
  \<comment> \<open>the global count of \<open>scan_doc_for_issues\<close>: informational, never with a repair\<close>
  "paren_balance_issues doc =
     (let open_p = int (count_char (CHR ''('') doc); close_p = int (count_char (CHR '')'') doc)
      in if open_p \<noteq> close_p then
           (let diff = open_p - close_p;
                msg = (if diff > 0
                       then ''More '' @ [CHR 0x27] @ ''('' @ [CHR 0x27] @ '' than '' @ [CHR 0x27] @ '')'' @ [CHR 0x27] @ ''.''
                       else ''More '' @ [CHR 0x27] @ '')'' @ [CHR 0x27] @ '' than '' @ [CHR 0x27] @ ''('' @ [CHR 0x27] @ ''.'')
            in [\<lparr>kind = ''paren-balance'', message = ''Unbalanced parentheses: '' @ msg,
                  line = 1, span = (0, min 50 (int (length doc))),
                  fix_preview = None, apply_fn = None\<rparr>])
         else [])"

fun dedup_loop ::
  "(string \<times> int \<times> string \<times> (int \<times> int) \<rightharpoonup> bool) \<Rightarrow> issue list \<Rightarrow> issue list \<Rightarrow> issue list" where
  \<comment> \<open>the loop \<open>for it in issues\<close>: \<open>dedup\<close> is the dictionary of the keys seen, \<open>res\<close> the
      list built so far\<close>
  "dedup_loop dedup res [] = res"
| "dedup_loop dedup res (it # issues) =
     (let key = (kind it, line it, message it, span it)
      in if dedup key = None then dedup_loop (dedup(key \<mapsto> True)) (res @ [it]) issues
         else dedup_loop dedup res issues)"

definition detector_output :: "string \<Rightarrow> bool \<Rightarrow> error + issue list" where
  \<comment> \<open>the list \<open>issues\<close> of \<open>scan_doc_for_issues\<close> before the keys are compared: what
      the detectors return, in the order they run\<close>
  "detector_output doc extended =
     (case find_cpptext_missing_brace doc of
        Inl e \<Rightarrow> Inl e
      | Inr cpp \<Rightarrow>
         (let strict = cpp @ safe_close_balance doc @ check_defaultproperties doc
                       @ check_semicolons_strict doc @ paren_balance_issues doc
          in if extended then
               (case extended_struct_enum_closer doc of
                  Inl e \<Rightarrow> Inl e
                | Inr se \<Rightarrow>
                   (case extended_unmatched_close_paren doc of
                      Inl e \<Rightarrow> Inl e
                    | Inr pc \<Rightarrow> Inr (strict @ extended_control_paren_balance doc @ se @ pc)))
             else Inr strict))"

definition scan_doc_for_issues :: "string \<Rightarrow> bool \<Rightarrow> error + issue list" where
  "scan_doc_for_issues doc extended =
     (case detector_output doc extended of
        Inl e \<Rightarrow> Inl e
      | Inr issues \<Rightarrow> Inr (dedup_loop Map.empty [] issues))"

definition scan_now :: "string \<Rightarrow> bool \<Rightarrow> bool \<Rightarrow> error + issue list" where
  \<comment> \<open>the issue list of \<open>MainWindow.scan_now\<close> (and of \<open>scan_folder\<close>, \<open>_apply_autofixes\<close>):
      \<open>scan_doc_for_issues\<close> under the mode, then the unmatched-open detector when its
      toggle is on\<close>
  "scan_now doc extended unmatched_open =
     (case scan_doc_for_issues doc extended of
        Inl e \<Rightarrow> Inl e
      | Inr issues \<Rightarrow>
         if unmatched_open then
           (case extended_unmatched_open_paren doc of
              Inl e \<Rightarrow> Inl e
            | Inr more_issues \<Rightarrow> Inr (issues @ more_issues))
         else Inr issues)"

definition run_repair :: "issue \<Rightarrow> string \<Rightarrow> (error + string) option" where
  \<comment> \<open>\<open>it.apply_fn(text)\<close> when the issue has a repair\<close>
  "run_repair it txt = (case apply_fn it of None \<Rightarrow> None | Some f \<Rightarrow> Some (f txt))"

section \<open>Notions used to state the properties\<close>

definition repair_results ::
  "string \<Rightarrow> error + issue list \<Rightarrow> string \<Rightarrow> (int \<times> (error + string) option) list" where
  \<comment> \<open>for the issues of kind \<open>k\<close> of a scan result, in order: the line, and what the repair
      returns on \<open>txt\<close>\<close>
  "repair_results k r txt =
     (case r of
        Inl e \<Rightarrow> []
      | Inr issues \<Rightarrow> map (\<lambda>it. (line it, run_repair it txt)) (filter (\<lambda>it. kind it = k) issues))"

definition top_level_match_at :: "string \<Rightarrow> nat \<Rightarrow> bool" where
  \<comment> \<open>the top-level pattern matches at position \<open>k\<close> of \<open>t\<close>: \<open>k\<close> is the start of a line,
      and white space (if any) and then a top-level keyword, ended by a word boundary,
      follow\<close>
  "top_level_match_at t k =
     (k < length t \<and> (k = 0 \<or> t ! (k - 1) = NL) \<and> top_level_here (drop k t))"

definition first_top_level_match :: "string \<Rightarrow> nat \<Rightarrow> bool" where
  "first_top_level_match t k =
     (top_level_match_at t k \<and> (\<forall>j<k. \<not> top_level_match_at t j))"

definition line_anchored ::
  "(int \<Rightarrow> nat \<Rightarrow> string \<Rightarrow> issue) \<Rightarrow> nat \<Rightarrow> nat \<Rightarrow> string list \<Rightarrow> issue \<Rightarrow> bool" where
  "line_anchored mk i offs ls it =
     (\<exists>k<length ls. it = mk (int (i + k) + 1) (offs + length (concat (take k ls))) (ls ! k))"

fun firsts :: "('a \<Rightarrow> 'k) \<Rightarrow> 'k set \<Rightarrow> 'a list \<Rightarrow> 'a list" where
  "firsts key S [] = []"
| "firsts key S (x # xs) =
     (if key x \<in> S then firsts key S xs else x # firsts key (insert (key x) S) xs)"

datatype token = Newline | Open nat | Close nat

datatype lex_mode = Code | LineComment | BlockComment | InString char

fun lex :: "lex_mode \<Rightarrow> nat \<Rightarrow> string \<Rightarrow> token list" where
  "lex m i [] = []"
| "lex Code i [a] =
     (if a = NL then [Newline]
      else if a = CHR ''('' then [Open i]
      else if a = CHR '')'' then [Close i]
      else [])"
| "lex Code i (a # b # r) =
     (if a = NL then Newline # lex Code (i + 1) (b # r)
      else if a = CHR ''/'' \<and> b = CHR ''/'' then lex LineComment (i + 2) r
      else if a = CHR ''/'' \<and> b = CHR ''*'' then lex BlockComment (i + 2) r
      else if a = CHR 0x27 \<or> a = CHR 0x22 then lex (InString a) (i + 1) (b # r)
      else if a = CHR ''('' then Open i # lex Code (i + 1) (b # r)
      else if a = CHR '')'' then Close i # lex Code (i + 1) (b # r)
      else lex Code (i + 1) (b # r))"
| "lex LineComment i (a # r) =
     (if a = NL then Newline # lex Code (i + 1) r else lex LineComment (i + 1) r)"
| "lex BlockComment i [a] = []"
| "lex BlockComment i (a # b # r) =
     (if a = CHR ''*'' \<and> b = CHR ''/'' then lex Code (i + 2) r
      else if a = NL then Newline # lex BlockComment (i + 1) (b # r)
      else lex BlockComment (i + 1) (b # r))"
| "lex (InString q) i [a] = (if a \<noteq> CHR 0x5C \<and> a \<noteq> q \<and> a = NL then [Newline] else [])"
| "lex (InString q) i (a # b # r) =
     (if a = CHR 0x5C then lex (InString q) (i + 2) r
      else if a = q then lex Code (i + 1) (b # r)
      else if a = NL then Newline # lex (InString q) (i + 1) (b # r)
      else lex (InString q) (i + 1) (b # r))"

fun close_tokens :: "int \<Rightarrow> int \<Rightarrow> token list \<Rightarrow> issue list" where
  "close_tokens depth ln [] = []"
| "close_tokens depth ln (Newline # ts) = close_tokens depth (ln + 1) ts"
| "close_tokens depth ln (Open p # ts) = close_tokens (depth + 1) ln ts"
| "close_tokens depth ln (Close p # ts) =
     (if depth = 0 then [unmatched_close_issue p ln] else close_tokens (depth - 1) ln ts)"

fun open_tokens :: "(nat \<times> int) list \<Rightarrow> int \<Rightarrow> token list \<Rightarrow> (nat \<times> int) list" where
  "open_tokens stack ln [] = stack"
| "open_tokens stack ln (Newline # ts) = open_tokens stack (ln + 1) ts"
| "open_tokens stack ln (Open p # ts) = open_tokens (stack @ [(p, ln)]) ln ts"
| "open_tokens stack ln (Close p # ts) =
     open_tokens (if stack \<noteq> [] then butlast stack else stack) ln ts"

datatype step = Line | LineC | BlockC | Quote | OpenP | CloseP | Other

definition step_at :: "string \<Rightarrow> nat \<Rightarrow> step" where
  "step_at doc i =
     (let c = doc ! i
      in if c = NL then Line
         else if c = CHR ''/'' \<and> i + 1 < length doc \<and> doc ! (i + 1) = CHR ''/'' then LineC
         else if c = CHR ''/'' \<and> i + 1 < length doc \<and> doc ! (i + 1) = CHR ''*'' then BlockC
         else if c = CHR 0x27 \<or> c = CHR 0x22 then Quote
         else if c = CHR ''('' then OpenP
         else if c = CHR '')'' then CloseP
         else Other)"

definition issue_ok :: "string \<Rightarrow> issue \<Rightarrow> bool" where
  "issue_ok doc it =
     (1 \<le> line it \<and> 0 \<le> fst (span it) \<and> fst (span it) \<le> snd (span it)
      \<and> snd (span it) \<le> int (length doc))"

fun closed_string :: "char \<Rightarrow> string \<Rightarrow> bool" where
  \<comment> \<open>the text \<open>s\<close> that follows an opening quote \<open>q\<close> has the closing quote: a \<open>q\<close> that
      is not the character escaped by a backslash\<close>
  "closed_string q [] = False"
| "closed_string q (a # s) =
     (if a = CHR 0x5C then closed_string q (drop 1 s) else a = q \<or> closed_string q s)"

section \<open>Auxiliary lemmas\<close>

lemma count_braces_foldl:
  "foldl (\<lambda>n ch. if ch = CHR ''{'' then n + 1 else if ch = CHR ''}'' then n - 1 else n) a doc
   = a + int (count_char (CHR ''{'') doc) - int (count_char (CHR ''}'') doc)"
  by (induction doc arbitrary: a) (auto simp: count_char_def)

lemma count_braces_eq:
  "count_braces doc = int (count_char (CHR ''{'') doc) - int (count_char (CHR ''}'') doc)"
  by (simp add: count_braces_def count_braces_foldl)

lemma drop_eq_ConsD:
  assumes "c # cs = drop i t"
  shows "i < length t" and "c = t ! i" and "cs = drop (Suc i) t"
proof -
  show lt: "i < length t"
  proof (rule ccontr)
    assume "\<not> i < length t"
    then have "drop i t = []" by simp
    with assms show False by simp
  qed
  from Cons_nth_drop_Suc [OF lt] assms have "c # cs = t ! i # drop (Suc i) t"
    by simp
  then show "c = t ! i" and "cs = drop (Suc i) t"
    by simp_all
qed

lemma top_level_from_Some:
  "top_level_from bol i s = Some k \<Longrightarrow> s = drop i t \<Longrightarrow> bol = (i = 0 \<or> t ! (i - 1) = NL)
   \<Longrightarrow> i \<le> k \<and> top_level_match_at t k \<and> (\<forall>j. i \<le> j \<and> j < k \<longrightarrow> \<not> top_level_match_at t j)"
proof (induction s arbitrary: bol i)
  case Nil
  then show ?case by simp
next
  case (Cons c cs)
  from Cons.prems(2) have ilt: "i < length t" and c: "c = t ! i" and cs: "cs = drop (Suc i) t"
    by (rule drop_eq_ConsD)+
  show ?case
  proof (cases "bol \<and> top_level_here (c # cs)")
    case True
    with Cons.prems(1) have "k = i" by simp
    moreover from True Cons.prems(2,3) ilt have "top_level_match_at t i"
      by (auto simp: top_level_match_at_def)
    ultimately show ?thesis by auto
  next
    case False
    with Cons.prems(1) have rec: "top_level_from (c = NL) (Suc i) cs = Some k" by auto
    have "(c = NL) = (Suc i = 0 \<or> t ! (Suc i - 1) = NL)" using c by simp
    from Cons.IH [OF rec cs this]
    have ih: "Suc i \<le> k" "top_level_match_at t k"
      "\<forall>j. Suc i \<le> j \<and> j < k \<longrightarrow> \<not> top_level_match_at t j" by auto
    have "\<not> top_level_match_at t i"
      using False Cons.prems(2,3) by (auto simp: top_level_match_at_def)
    with ih show ?thesis
      by (auto simp: less_Suc_eq_le) (metis Suc_leI le_neq_implies_less)
  qed
qed

lemma top_level_from_None:
  "top_level_from bol i s = None \<Longrightarrow> s = drop i t \<Longrightarrow> bol = (i = 0 \<or> t ! (i - 1) = NL)
   \<Longrightarrow> i \<le> j \<Longrightarrow> \<not> top_level_match_at t j"
proof (induction s arbitrary: bol i)
  case Nil
  then show ?case by (simp add: top_level_match_at_def)
next
  case (Cons c cs)
  from Cons.prems(2) have ilt: "i < length t" and c: "c = t ! i" and cs: "cs = drop (Suc i) t"
    by (rule drop_eq_ConsD)+
  from Cons.prems(1) have notmatch: "\<not> (bol \<and> top_level_here (c # cs))"
    and rec: "top_level_from (c = NL) (Suc i) cs = None"
    by (auto split: if_splits)
  have b: "(c = NL) = (Suc i = 0 \<or> t ! (Suc i - 1) = NL)" using c by simp
  show ?case
  proof (cases "j = i")
    case True
    with notmatch Cons.prems(2,3) show ?thesis by (auto simp: top_level_match_at_def)
  next
    case False
    with Cons.prems(4) have "Suc i \<le> j" by simp
    from Cons.IH [OF rec cs b this] show ?thesis .
  qed
qed


lemma top_level_search_Some:
  "top_level_search t = Some k \<Longrightarrow> first_top_level_match t k"
  using top_level_from_Some [of True 0 t k t]
  by (simp add: top_level_search_def first_top_level_match_def)

lemma top_level_search_None:
  "top_level_search t = None \<Longrightarrow> \<not> top_level_match_at t j"
  using top_level_from_None [of True 0 t t j]
  by (simp add: top_level_search_def)

lemma safe_close_balance_apply_eq:
  "\<exists>k. safe_close_balance_apply t = Inr (take k t @ ''}\<newline>'' @ drop k t) \<and>
       (first_top_level_match t k \<or> (k = length t \<and> (\<forall>j. \<not> top_level_match_at t j)))"
proof (cases "top_level_search t")
  case None
  then have "safe_close_balance_apply t = Inr (take (length t) t @ ''}\<newline>'' @ drop (length t) t)"
    by (simp add: safe_close_balance_apply_def)
  with top_level_search_None [OF None] show ?thesis by blast
next
  case (Some k)
  then have "safe_close_balance_apply t = Inr (take k t @ ''}\<newline>'' @ drop k t)"
    by (simp add: safe_close_balance_apply_def)
  with top_level_search_Some [OF Some] show ?thesis by blast
qed

lemma dedup_loop_Cons:
  "dedup_loop m res (x # xs) =
     (if m (issue_key x) = None then dedup_loop (m(issue_key x \<mapsto> True)) (res @ [x]) xs
      else dedup_loop m res xs)"
  by (simp add: issue_key_def Let_def)

lemma dedup_loop_firsts:
  "dedup_loop m res xs = res @ firsts issue_key (dom m) xs"
proof (induction xs arbitrary: m res)
  case Nil
  then show ?case by simp
next
  case (Cons x xs)
  show ?case
  proof (cases "m (issue_key x)")
    case None
    then have notin: "issue_key x \<notin> dom m" by (simp add: domIff)
    have d: "dom (m(issue_key x \<mapsto> True)) = insert (issue_key x) (dom m)" by simp
    from None have "dedup_loop m res (x # xs) = dedup_loop (m(issue_key x \<mapsto> True)) (res @ [x]) xs"
      by (simp only: dedup_loop_Cons refl if_True)
    also have "\<dots> = (res @ [x]) @ firsts issue_key (dom (m(issue_key x \<mapsto> True))) xs"
      by (rule Cons.IH)
    also have "\<dots> = res @ firsts issue_key (dom m) (x # xs)"
      using notin by (simp only: d firsts.simps if_False append_assoc append_Cons append_Nil)
    finally show ?thesis .
  next
    case (Some b)
    then have "issue_key x \<in> dom m" by (simp add: domIff)
    moreover from Some have "dedup_loop m res (x # xs) = dedup_loop m res xs"
      by (simp add: dedup_loop_Cons del: dedup_loop.simps)
    ultimately show ?thesis using Cons.IH [of m res] by simp
  qed
qed

lemma firsts_keys: "key ` set (firsts key S xs) = key ` set xs - S"
  by (induction xs arbitrary: S) auto

lemma firsts_subset: "set (firsts key S xs) \<subseteq> set xs"
  by (induction xs arbitrary: S) auto

lemma firsts_distinct: "distinct (map key (firsts key S xs))"
proof (induction xs arbitrary: S)
  case Nil
  then show ?case by simp
next
  case (Cons x xs)
  have "key x \<notin> key ` set (firsts key (insert (key x) S) xs)"
    by (simp add: firsts_keys)
  with Cons show ?case by simp
qed

lemma firsts_subseq: "subseq (firsts key S xs) xs"
  by (induction xs arbitrary: S) auto

lemma firsts_first:
  "x \<in> set (firsts key S xs) \<Longrightarrow> \<exists>ys zs. xs = ys @ x # zs \<and> key x \<notin> key ` set ys"
proof (induction xs arbitrary: S)
  case Nil
  then show ?case by simp
next
  case (Cons a xs)
  show ?case
  proof (cases "x = a")
    case True
    then have "a # xs = [] @ x # xs \<and> key x \<notin> key ` set []" by simp
    then show ?thesis by blast
  next
    case False
    have "x \<in> set (firsts key (if key a \<in> S then S else insert (key a) S) xs)"
      using Cons.prems False by (auto split: if_splits)
    from Cons.IH [OF this] obtain ys zs where yz: "xs = ys @ x # zs" "key x \<notin> key ` set ys"
      by blast
    have "key x \<noteq> key a"
    proof (cases "key a \<in> S")
      case True
      with Cons.prems False have "x \<in> set (firsts key S xs)" by simp
      then have "key x \<in> key ` set xs - S" using firsts_keys [of key S xs] by blast
      with True show ?thesis by auto
    next
      case S: False
      with Cons.prems False have "x \<in> set (firsts key (insert (key a) S) xs)" by simp
      then have "key x \<in> key ` set xs - insert (key a) S"
        using firsts_keys [of key "insert (key a) S" xs] by blast
      then show ?thesis by auto
    qed
    with yz have "a # xs = (a # ys) @ x # zs \<and> key x \<notin> key ` set (a # ys)" by simp
    then show ?thesis by blast
  qed
qed

lemma line_anchored_here: "line_anchored mk i offs (l # ls) (mk (int i + 1) offs l)"
  unfolding line_anchored_def by (rule exI [of _ 0]) simp

lemma line_anchored_later:
  assumes "line_anchored mk (i + 1) (offs + length l) ls it"
  shows "line_anchored mk i offs (l # ls) it"
proof -
  from assms obtain k where k: "k < length ls"
    "it = mk (int (i + 1 + k) + 1) (offs + length l + length (concat (take k ls))) (ls ! k)"
    unfolding line_anchored_def by blast
  then have "Suc k < length (l # ls) \<and>
     it = mk (int (i + Suc k) + 1) (offs + length (concat (take (Suc k) (l # ls)))) ((l # ls) ! Suc k)"
    by (simp add: add.assoc)
  then show ?thesis unfolding line_anchored_def by blast
qed

lemma semicolon_lines_anchored:
  "it \<in> set (semicolon_lines i offs ls) \<Longrightarrow> line_anchored semicolon_issue i offs ls it"
proof (induction ls arbitrary: i offs)
  case Nil
  then show ?case by simp
next
  case (Cons l ls)
  from Cons.prems
  have "it = semicolon_issue (int i + 1) offs l \<or> it \<in> set (semicolon_lines (i + 1) (offs + length l) ls)"
    by (auto simp: Let_def split: if_splits)
  then show ?case
    using Cons.IH [of "i + 1" "offs + length l"] line_anchored_here line_anchored_later by blast
qed

lemma control_paren_lines_anchored:
  "it \<in> set (control_paren_lines i offs ls) \<Longrightarrow> line_anchored control_paren_issue i offs ls it"
proof (induction ls arbitrary: i offs)
  case Nil
  then show ?case by simp
next
  case (Cons l ls)
  from Cons.prems
  have "it = control_paren_issue (int i + 1) offs l
        \<or> it \<in> set (control_paren_lines (i + 1) (offs + length l) ls)"
    by (auto simp: Let_def split: if_splits)
  then show ?case
    using Cons.IH [of "i + 1" "offs + length l"] line_anchored_here line_anchored_later by blast
qed

lemma list_at_nat: "j < length xs \<Longrightarrow> list_at xs (int j) = Inr (xs ! j)"
  by (simp add: list_at_def py_index_def)

lemma skip_blank_lines_total: "\<exists>j'. skip_blank_lines lines j = Inr j'"
proof (induction lines j rule: skip_blank_lines.induct)
  case (1 lines j)
  show ?case
  proof (cases "j < length lines \<and> blank_or_comment (lines ! j)")
    case True
    with "1.IH" [of "lines ! j"] show ?thesis
      by (subst skip_blank_lines.simps) (simp add: list_at_nat)
  next
    case False
    then show ?thesis
      by (subst skip_blank_lines.simps) (auto simp: list_at_nat)
  qed
qed

lemma cpptext_lines_total: "\<exists>xs. cpptext_lines lines i offs ls = Inr xs"
proof (induction ls arbitrary: i offs)
  case Nil
  then show ?case by simp
next
  case (Cons l ls)
  obtain j where j: "skip_blank_lines lines (i + 1) = Inr j"
    using skip_blank_lines_total by blast
  obtain nl where nl: "(if j < length lines then list_at lines (int j) else Inr []) = Inr nl"
    by (cases "j < length lines") (simp_all add: list_at_nat)
  obtain xs where xs: "cpptext_lines lines (i + 1) (offs + length l) ls = Inr xs"
    using Cons.IH by blast
  show ?case
    using j nl xs by (simp del: skip_blank_lines.simps)
qed

lemma cpptext_lines_anchored:
  "cpptext_lines lines i offs ls = Inr xs \<Longrightarrow> it \<in> set xs \<Longrightarrow> line_anchored cpptext_issue i offs ls it"
proof (induction ls arbitrary: i offs xs)
  case Nil
  then show ?case by simp
next
  case (Cons l ls)
  obtain ys where ys: "cpptext_lines lines (i + 1) (offs + length l) ls = Inr ys"
    using cpptext_lines_total by blast
  from Cons.prems(1) ys have "xs = ys \<or> xs = cpptext_issue (int i + 1) offs l # ys"
    by (auto simp del: skip_blank_lines.simps split: if_splits sum.splits)
  with Cons.prems(2) have "it = cpptext_issue (int i + 1) offs l \<or> it \<in> set ys"
    by auto
  then show ?case
    using Cons.IH [OF ys] line_anchored_here line_anchored_later by blast
qed

lemma concat_splitlines_from: "concat (splitlines_from cur s) = cur @ s"
  by (induction cur s rule: splitlines_from.induct) auto

lemma concat_splitlines: "concat (splitlines s) = s"
  by (simp add: splitlines_def concat_splitlines_from)

lemma length_concat_take: "k < length ls \<Longrightarrow> length (concat (take k ls)) + length (ls ! k) \<le> length (concat ls)"
proof -
  assume "k < length ls"
  then have "ls = take k ls @ ls ! k # drop (Suc k) ls"
    by (simp add: id_take_nth_drop)
  then have "concat ls = concat (take k ls) @ ls ! k @ concat (drop (Suc k) ls)"
    by (metis concat.simps(2) concat_append)
  then show ?thesis by simp
qed

lemma kw_here_length: "kw_here kw r \<Longrightarrow> length kw \<le> length r"
  by (simp add: kw_here_def ci_prefix_def)

lemma kw_finditer_from_bounds:
  "(s, e) \<in> set (kw_finditer_from kw skip pw i str) \<Longrightarrow> i \<le> s \<and> e = s + length kw \<and> e \<le> i + length str"
proof (induction str arbitrary: skip pw i)
  case Nil
  then show ?case by simp
next
  case (Cons c cs)
  show ?case
  proof (cases "skip = 0 \<and> \<not> pw \<and> kw_here kw (c # cs)")
    case True
    with Cons.prems
    have "(s, e) = (i, i + length kw)
          \<or> (s, e) \<in> set (kw_finditer_from kw (length kw - 1) (is_word c) (Suc i) cs)"
      by auto
    then show ?thesis
    proof
      assume "(s, e) = (i, i + length kw)"
      with True kw_here_length [of kw "c # cs"] show ?thesis by auto
    next
      assume "(s, e) \<in> set (kw_finditer_from kw (length kw - 1) (is_word c) (Suc i) cs)"
      from Cons.IH [OF this] show ?thesis by auto
    qed
  next
    case False
    with Cons.prems have "(s, e) \<in> set (kw_finditer_from kw (skip - 1) (is_word c) (Suc i) cs)"
      by auto
    from Cons.IH [OF this] show ?thesis by auto
  qed
qed

lemma defaultprops_matches_shape:
  "it \<in> set (defaultprops_matches doc ms) \<Longrightarrow> \<exists>m \<in> set ms. it = defaultprops_issue doc m"
  by (induction ms) (auto split: if_splits)

lemma check_defaultproperties_shape:
  assumes "it \<in> set (check_defaultproperties doc)"
  shows "\<exists>s e. it = defaultprops_issue doc (s, e) \<and> s \<le> e \<and> e \<le> length doc"
proof -
  from assms obtain m where m: "m \<in> set (kw_finditer ''defaultproperties'' doc)"
      "it = defaultprops_issue doc m"
    unfolding check_defaultproperties_def using defaultprops_matches_shape by blast
  obtain s e where se: "m = (s, e)" by (cases m)
  with m(1) kw_finditer_from_bounds [of s e "''defaultproperties''" 0 False 0 doc]
  have "s \<le> e \<and> e \<le> length doc" by (simp add: kw_finditer_def)
  with m(2) se show ?thesis by blast
qed

lemma find_first_less: "find_first P s = Some k \<Longrightarrow> k < length s"
  by (induction s arbitrary: k) (auto split: if_splits)

lemma last_brace_end_le: "last_brace_end r = Some k \<Longrightarrow> 0 < k \<and> k \<le> length r"
proof -
  assume a: "last_brace_end r = Some k"
  define seg where "seg = takeWhile (\<lambda>c. c \<noteq> NL) r"
  from a obtain j where j: "find_first (\<lambda>c. c = CHR ''{'') (rev seg) = Some j" "k = length seg - j"
    by (auto simp: last_brace_end_def seg_def Let_def split: option.splits)
  from find_first_less [OF j(1)] have "j < length seg" by simp
  moreover have "length seg \<le> length r" unfolding seg_def by (rule length_takeWhile_le)
  ultimately show ?thesis using j(2) by simp
qed

lemma struct_enum_here_le: "struct_enum_here r = Some (len, g) \<Longrightarrow> 0 < len \<and> len \<le> length r"
proof -
  assume a: "struct_enum_here r = Some (len, g)"
  define r1 where "r1 = lstrip r"
  have le: "length r1 \<le> length r" unfolding r1_def lstrip_def by (rule length_dropWhile_le)
  show ?thesis
  proof (cases "kw_here ''struct'' r1")
    case True
    with a obtain k where k: "last_brace_end (drop 6 r1) = Some k" "len = length r - length r1 + 6 + k"
      by (auto simp: struct_enum_here_def r1_def Let_def split: option.splits)
    from kw_here_length [OF True] have "6 \<le> length r1" by simp
    with last_brace_end_le [OF k(1)] le k(2) show ?thesis by (simp del: One_nat_def) arith
  next
    case False
    with a have e: "kw_here ''enum'' r1"
      by (auto simp: struct_enum_here_def r1_def Let_def split: if_splits)
    with a False obtain k where k: "last_brace_end (drop 4 r1) = Some k" "len = length r - length r1 + 4 + k"
      by (auto simp: struct_enum_here_def r1_def Let_def split: option.splits)
    from kw_here_length [OF e] have "4 \<le> length r1" by simp
    with last_brace_end_le [OF k(1)] le k(2) show ?thesis by (simp del: One_nat_def) arith
  qed
qed

lemma struct_enum_finditer_from_bounds:
  "(s, e, g) \<in> set (struct_enum_finditer_from skip bol i str) \<Longrightarrow> i \<le> s \<and> s \<le> e \<and> e \<le> i + length str"
proof (induction str arbitrary: skip bol i)
  case Nil
  then show ?case by simp
next
  case (Cons c cs)
  show ?case
  proof (cases "skip = 0 \<and> bol")
    case False
    with Cons.prems have "(s, e, g) \<in> set (struct_enum_finditer_from (skip - 1) (c = NL) (Suc i) cs)"
      by auto
    from Cons.IH [OF this] show ?thesis by auto
  next
    case True
    show ?thesis
    proof (cases "struct_enum_here (c # cs)")
      case None
      with True Cons.prems have "(s, e, g) \<in> set (struct_enum_finditer_from 0 (c = NL) (Suc i) cs)"
        by auto
      from Cons.IH [OF this] show ?thesis by auto
    next
      case (Some lg)
      obtain len g' where lg: "lg = (len, g')" by (cases lg)
      with True Some Cons.prems
      have "(s, e, g) = (i, i + len, g')
            \<or> (s, e, g) \<in> set (struct_enum_finditer_from (len - 1) (c = NL) (Suc i) cs)"
        by auto
      then show ?thesis
      proof
        assume "(s, e, g) = (i, i + len, g')"
        with struct_enum_here_le [of "c # cs" len g'] Some lg show ?thesis by auto
      next
        assume "(s, e, g) \<in> set (struct_enum_finditer_from (len - 1) (c = NL) (Suc i) cs)"
        from Cons.IH [OF this] show ?thesis by auto
      qed
    qed
  qed
qed

lemma brace_walk_total: "\<exists>pos' count'. brace_walk tx pos count = Inr (pos', count')"
proof (induction tx pos count rule: brace_walk.induct)
  case (1 tx pos count)
  show ?case
  proof (cases "find_first is_brace (drop pos tx)")
    case None
    then show ?thesis by (subst brace_walk.simps) simp
  next
    case (Some k)
    from find_first_less [OF Some] have lt: "pos + k < length tx" by simp
    then have ca: "char_at tx (pos + k) = Inr (tx ! (pos + k))" by (simp add: char_at_def)
    define count' where "count' = (if tx ! (pos + k) = CHR ''{'' then count + 1 else count - 1)"
    show ?thesis
    proof (cases "count' = 0")
      case True
      with Some ca show ?thesis
        by (subst brace_walk.simps) (simp add: count'_def Let_def)
    next
      case False
      from "1.IH" [OF Some ca refl refl] False
      obtain p c where "brace_walk tx (pos + k + 1) count' = Inr (p, c)"
        by (auto simp: count'_def)
      with Some ca False show ?thesis
        by (subst brace_walk.simps) (simp add: count'_def Let_def)
    qed
  qed
qed

lemma struct_enum_matches_total: "\<exists>xs. struct_enum_matches tx ms = Inr xs"
proof (induction ms)
  case Nil
  then show ?case by simp
next
  case (Cons m ms)
  obtain p c where "brace_walk tx (fst (snd m)) 1 = Inr (p, c)"
    using brace_walk_total by blast
  moreover obtain xs where "struct_enum_matches tx ms = Inr xs"
    using Cons.IH by blast
  ultimately show ?case by (simp del: brace_walk.simps)
qed

lemma struct_enum_matches_shape:
  "struct_enum_matches tx ms = Inr xs \<Longrightarrow> it \<in> set xs
   \<Longrightarrow> \<exists>m \<in> set ms. \<exists>pos. it = struct_enum_issue tx m pos"
proof (induction ms arbitrary: xs)
  case Nil
  then show ?case by simp
next
  case (Cons m ms)
  obtain p c where pc: "brace_walk tx (fst (snd m)) 1 = Inr (p, c)"
    using brace_walk_total by blast
  obtain ys where ys: "struct_enum_matches tx ms = Inr ys"
    using struct_enum_matches_total by blast
  from Cons.prems(1) pc ys have "xs = ys \<or> xs = struct_enum_issue tx m p # ys"
    by (auto simp del: brace_walk.simps split: if_splits)
  with Cons.prems(2) have "it = struct_enum_issue tx m p \<or> it \<in> set ys" by auto
  then show ?case using Cons.IH [OF ys] by auto
qed

lemma drop_step: "i < length doc \<Longrightarrow> drop i doc = doc ! i # drop (Suc i) doc"
  by (simp add: Cons_nth_drop_Suc)

lemma lex_Code_step:
  "lex Code i (a # r) =
     (if a = NL then Newline # lex Code (i + 1) r
      else if a = CHR ''/'' \<and> r \<noteq> [] \<and> hd r = CHR ''/'' then lex LineComment (i + 2) (tl r)
      else if a = CHR ''/'' \<and> r \<noteq> [] \<and> hd r = CHR ''*'' then lex BlockComment (i + 2) (tl r)
      else if a = CHR 0x27 \<or> a = CHR 0x22 then lex (InString a) (i + 1) r
      else if a = CHR ''('' then Open i # lex Code (i + 1) r
      else if a = CHR '')'' then Close i # lex Code (i + 1) r
      else lex Code (i + 1) r)"
  by (cases r) auto

lemma lex_Block_step:
  "lex BlockComment i (a # r) =
     (if r = [] then []
      else if a = CHR ''*'' \<and> hd r = CHR ''/'' then lex Code (i + 2) (tl r)
      else if a = NL then Newline # lex BlockComment (i + 1) r
      else lex BlockComment (i + 1) r)"
  by (cases r) auto

lemma lex_String_step:
  "lex (InString q) i (a # r) =
     (if a = CHR 0x5C then lex (InString q) (i + 2) (tl r)
      else if a = q then lex Code (i + 1) r
      else if a = NL then Newline # lex (InString q) (i + 1) r
      else lex (InString q) (i + 1) r)"
  by (cases r) auto

lemma skip_line_comment_lex:
  "\<exists>j'. skip_line_comment doc j = Inr j' \<and> j \<le> j'
        \<and> lex LineComment j (drop j doc) = lex Code j' (drop j' doc)"
proof (induction doc j rule: skip_line_comment.induct)
  case (1 doc j)
  show ?case
  proof (cases "j < length doc")
    case False
    then show ?thesis by (subst skip_line_comment.simps) simp
  next
    case True
    then have ca: "char_at doc j = Inr (doc ! j)" by (simp add: char_at_def)
    show ?thesis
    proof (cases "doc ! j = NL")
      case nl: True
      with True ca have "skip_line_comment doc j = Inr j"
        by (subst skip_line_comment.simps) simp
      moreover from True nl have "lex LineComment j (drop j doc) = lex Code j (drop j doc)"
        by (simp add: drop_step lex_Code_step del: lex.simps(2,3)) 
      ultimately show ?thesis by simp
    next
      case False
      from "1.IH" [OF True ca False] obtain j' where j': "skip_line_comment doc (j + 1) = Inr j'"
          "j + 1 \<le> j'" "lex LineComment (j + 1) (drop (j + 1) doc) = lex Code j' (drop j' doc)"
        by blast
      from True ca False j'(1) have "skip_line_comment doc j = Inr j'"
        by (subst skip_line_comment.simps) simp
      moreover from True False j'(3) have "lex LineComment j (drop j doc) = lex Code j' (drop j' doc)"
        by (simp add: drop_step)
      ultimately show ?thesis using j'(2) by simp
    qed
  qed
qed

lemma block_comment_loop_lex:
  "\<exists>j' k. block_comment_loop doc j ln = Inr (j', ln + int k) \<and> min (j + 2) (length doc) \<le> j'
        \<and> lex BlockComment j (drop j doc) = replicate k Newline @ lex Code j' (drop j' doc)"
proof (induction doc j ln rule: block_comment_loop.induct)
  case (1 doc j ln)
  show ?case
  proof (cases "j + 1 < length doc")
    case False
    then have "block_comment_loop doc j ln = Inr (min (j + 2) (length doc), ln + int 0)"
      by (subst block_comment_loop.simps) simp
    moreover from False have "lex BlockComment j (drop j doc) = []"
      by (cases "j < length doc") (simp_all add: drop_step lex_Block_step)
    moreover from False have "drop (min (j + 2) (length doc)) doc = []" by simp
    ultimately show ?thesis
      by (intro exI [of _ "min (j + 2) (length doc)"] exI [of _ 0]) simp
  next
    case True
    then have ca: "char_at doc j = Inr (doc ! j)" "char_at doc (j + 1) = Inr (doc ! (j + 1))"
      by (simp_all add: char_at_def)
    from True have dr: "drop j doc = doc ! j # drop (Suc j) doc"
      and dr2: "drop (Suc j) doc = doc ! (Suc j) # drop (Suc (Suc j)) doc"
      by (simp_all add: drop_step)
    show ?thesis
    proof (cases "doc ! j = CHR ''*''")
      case star: True
      show ?thesis
      proof (cases "doc ! (j + 1) = CHR ''/''")
        case True
        with star ca \<open>j + 1 < length doc\<close>
        have "block_comment_loop doc j ln = Inr (j + 2, ln + int 0)"
          by (subst block_comment_loop.simps) simp
        moreover from True star dr dr2
        have "lex BlockComment j (drop j doc) = replicate 0 Newline @ lex Code (j + 2) (drop (j + 2) doc)"
          by simp
        moreover from \<open>j + 1 < length doc\<close> have "min (j + 2) (length doc) \<le> j + 2" by simp
        ultimately show ?thesis by blast
      next
        case False
        from "1.IH"(1) [OF \<open>j + 1 < length doc\<close> ca(1) star ca(2) False]
        obtain j' k where jk: "block_comment_loop doc (j + 1) ln = Inr (j', ln + int k)"
            "min (j + 1 + 2) (length doc) \<le> j'"
            "lex BlockComment (j + 1) (drop (j + 1) doc) = replicate k Newline @ lex Code j' (drop j' doc)"
          by blast
        from False star ca \<open>j + 1 < length doc\<close> jk(1)
        have "block_comment_loop doc j ln = Inr (j', ln + int k)"
          by (subst block_comment_loop.simps) simp
        moreover from False star dr dr2 jk(3)
        have "lex BlockComment j (drop j doc) = replicate k Newline @ lex Code j' (drop j' doc)"
          by simp
        moreover from jk(2) have "min (j + 2) (length doc) \<le> j'" by simp
        ultimately show ?thesis by blast
      qed
    next
      case False
      define ln1 where "ln1 = (if doc ! j = NL then ln + 1 else ln)"
      from "1.IH"(2) [OF \<open>j + 1 < length doc\<close> ca(1) False]
      obtain j' k where jk: "block_comment_loop doc (j + 1) ln1 = Inr (j', ln1 + int k)"
          "min (j + 1 + 2) (length doc) \<le> j'"
          "lex BlockComment (j + 1) (drop (j + 1) doc) = replicate k Newline @ lex Code j' (drop j' doc)"
        unfolding ln1_def by blast
      from False ca \<open>j + 1 < length doc\<close> jk(1)
      have r: "block_comment_loop doc j ln = Inr (j', ln1 + int k)"
        by (subst block_comment_loop.simps) (simp add: ln1_def)
      from jk(2) have m: "min (j + 2) (length doc) \<le> j'" by simp
      show ?thesis
      proof (cases "doc ! j = NL")
        case True
        with r have "block_comment_loop doc j ln = Inr (j', ln + int (Suc k))"
          by (simp add: ln1_def)
        moreover from True False dr dr2 jk(3)
        have "lex BlockComment j (drop j doc) = replicate (Suc k) Newline @ lex Code j' (drop j' doc)"
          by simp
        ultimately show ?thesis using m by blast
      next
        case nnl: False
        with r have "block_comment_loop doc j ln = Inr (j', ln + int k)"
          by (simp add: ln1_def)
        moreover from nnl False dr dr2 jk(3)
        have "lex BlockComment j (drop j doc) = replicate k Newline @ lex Code j' (drop j' doc)"
          by simp
        ultimately show ?thesis using m by blast
      qed
    qed
  qed
qed

lemma string_loop_lex:
  "\<exists>j' k. string_loop doc j q ln = Inr (j', ln + int k) \<and> j \<le> j'
        \<and> lex (InString q) j (drop j doc) = replicate k Newline @ lex Code j' (drop j' doc)"
proof (induction doc j q ln rule: string_loop.induct)
  case (1 doc j q ln)
  show ?case
  proof (cases "j < length doc")
    case False
    then have "string_loop doc j q ln = Inr (j, ln + int 0)"
      by (subst string_loop.simps) simp
    moreover from False have "lex (InString q) j (drop j doc) = replicate 0 Newline @ lex Code j (drop j doc)"
      by simp
    ultimately show ?thesis by blast
  next
    case True
    then have ca: "char_at doc j = Inr (doc ! j)" by (simp add: char_at_def)
    from True have dr: "drop j doc = doc ! j # drop (Suc j) doc" by (simp add: drop_step)
    have tl: "tl (drop (Suc j) doc) = drop (j + 2) doc" by (simp add: drop_Suc tl_drop)
    show ?thesis
    proof (cases "doc ! j = CHR 0x5C")
      case bs: True
      from "1.IH"(1) [OF True ca bs]
      obtain j' k where jk: "string_loop doc (j + 2) q ln = Inr (j', ln + int k)" "j + 2 \<le> j'"
          "lex (InString q) (j + 2) (drop (j + 2) doc) = replicate k Newline @ lex Code j' (drop j' doc)"
        by blast
      from bs True ca jk(1) have "string_loop doc j q ln = Inr (j', ln + int k)"
        by (subst string_loop.simps) simp
      moreover from bs jk(3) have "lex (InString q) j (drop j doc) = replicate k Newline @ lex Code j' (drop j' doc)"
        by (simp only: dr lex_String_step tl if_True refl)
      ultimately show ?thesis using jk(2) by (intro exI [of _ j'] exI [of _ k]) simp
    next
      case False
      show ?thesis
      proof (cases "doc ! j = q")
        case True
        with False ca \<open>j < length doc\<close> have "string_loop doc j q ln = Inr (j + 1, ln + int 0)"
          by (subst string_loop.simps) simp
        moreover from True False
        have "lex (InString q) j (drop j doc) = replicate 0 Newline @ lex Code (j + 1) (drop (j + 1) doc)"
          by (simp add: dr lex_String_step del: lex.simps)
        ultimately show ?thesis by (intro exI [of _ "j + 1"] exI [of _ 0]) simp
      next
        case nq: False
        define ln1 where "ln1 = (if doc ! j = NL then ln + 1 else ln)"
        from "1.IH"(2) [OF \<open>j < length doc\<close> ca False nq]
        obtain j' k where jk: "string_loop doc (j + 1) q ln1 = Inr (j', ln1 + int k)" "j + 1 \<le> j'"
            "lex (InString q) (j + 1) (drop (j + 1) doc) = replicate k Newline @ lex Code j' (drop j' doc)"
          unfolding ln1_def by blast
        from nq False ca \<open>j < length doc\<close> jk(1)
        have r: "string_loop doc j q ln = Inr (j', ln1 + int k)"
          by (subst string_loop.simps) (simp add: ln1_def)
        show ?thesis
        proof (cases "doc ! j = NL")
          case True
          with r have "string_loop doc j q ln = Inr (j', ln + int (Suc k))" by (simp add: ln1_def)
          moreover from True nq False jk(3)
          have "lex (InString q) j (drop j doc) = replicate (Suc k) Newline @ lex Code j' (drop j' doc)"
            by (simp add: dr lex_String_step del: lex.simps)
          ultimately show ?thesis using jk(2) by (intro exI [of _ j'] exI [of _ "Suc k"]) simp
        next
          case nnl: False
          with r have "string_loop doc j q ln = Inr (j', ln + int k)" by (simp add: ln1_def)
          moreover from nnl nq False jk(3)
          have "lex (InString q) j (drop j doc) = replicate k Newline @ lex Code j' (drop j' doc)"
            by (simp add: dr lex_String_step del: lex.simps)
          ultimately show ?thesis using jk(2) by (intro exI [of _ j'] exI [of _ k]) simp
        qed
      qed
    qed
  qed
qed

lemma close_tokens_newlines:
  "close_tokens depth ln (replicate k Newline @ ts) = close_tokens depth (ln + int k) ts"
  by (induction k arbitrary: ln) (simp_all add: add.assoc)

lemma open_tokens_newlines:
  "open_tokens stack ln (replicate k Newline @ ts) = open_tokens stack (ln + int k) ts"
  by (induction k arbitrary: ln) (simp_all add: add.assoc)

lemma close_loop_step:
  assumes "i < length doc"
  shows "close_loop doc i depth ln =
     (case step_at doc i of
        Line \<Rightarrow> close_loop doc (i + 1) depth (ln + 1)
      | LineC \<Rightarrow> (case skip_line_comment doc (i + 2) of Inl e \<Rightarrow> Inl e | Inr j \<Rightarrow> close_loop doc j depth ln)
      | BlockC \<Rightarrow> (case skip_block_comment doc i ln of Inl e \<Rightarrow> Inl e
                   | Inr (j, ln') \<Rightarrow> close_loop doc j depth ln')
      | Quote \<Rightarrow> (case skip_string doc i (doc ! i) ln of Inl e \<Rightarrow> Inl e
                  | Inr (j, ln') \<Rightarrow> close_loop doc j depth ln')
      | OpenP \<Rightarrow> close_loop doc (i + 1) (depth + 1) ln
      | CloseP \<Rightarrow> (if depth = 0 then Inr [unmatched_close_issue i ln]
                    else close_loop doc (i + 1) (depth - 1) ln)
      | Other \<Rightarrow> close_loop doc (i + 1) depth ln)"
  using assms
  by (subst close_loop.simps) (simp add: step_at_def char_at_def next_is_def Let_def)

lemma open_loop_step:
  assumes "i < length doc"
  shows "open_loop doc i stack ln =
     (case step_at doc i of
        Line \<Rightarrow> open_loop doc (i + 1) stack (ln + 1)
      | LineC \<Rightarrow> (case skip_line_comment doc (i + 2) of Inl e \<Rightarrow> Inl e | Inr j \<Rightarrow> open_loop doc j stack ln)
      | BlockC \<Rightarrow> (case skip_block_comment doc i ln of Inl e \<Rightarrow> Inl e
                   | Inr (j, ln') \<Rightarrow> open_loop doc j stack ln')
      | Quote \<Rightarrow> (case skip_string doc i (doc ! i) ln of Inl e \<Rightarrow> Inl e
                  | Inr (j, ln') \<Rightarrow> open_loop doc j stack ln')
      | OpenP \<Rightarrow> open_loop doc (i + 1) (stack @ [(i, ln)]) ln
      | CloseP \<Rightarrow> open_loop doc (i + 1) (if stack \<noteq> [] then butlast stack else stack) ln
      | Other \<Rightarrow> open_loop doc (i + 1) stack ln)"
  using assms
  by (subst open_loop.simps) (simp add: step_at_def char_at_def next_is_def Let_def)

lemma lex_Code_at:
  assumes "i < length doc"
  shows "lex Code i (drop i doc) =
     (case step_at doc i of
        Line \<Rightarrow> Newline # lex Code (i + 1) (drop (i + 1) doc)
      | LineC \<Rightarrow> lex LineComment (i + 2) (drop (i + 2) doc)
      | BlockC \<Rightarrow> lex BlockComment (i + 2) (drop (i + 2) doc)
      | Quote \<Rightarrow> lex (InString (doc ! i)) (i + 1) (drop (i + 1) doc)
      | OpenP \<Rightarrow> Open i # lex Code (i + 1) (drop (i + 1) doc)
      | CloseP \<Rightarrow> Close i # lex Code (i + 1) (drop (i + 1) doc)
      | Other \<Rightarrow> lex Code (i + 1) (drop (i + 1) doc))"
proof -
  have tl: "tl (drop (Suc i) doc) = drop (i + 2) doc" by (simp add: drop_Suc tl_drop)
  have ne: "drop (Suc i) doc \<noteq> [] \<longleftrightarrow> i + 1 < length doc" by auto
  have hd: "i + 1 < length doc \<Longrightarrow> hd (drop (Suc i) doc) = doc ! (i + 1)"
    by (simp add: hd_drop_conv_nth)
  show ?thesis
    using assms hd
    by (simp only: drop_step [OF assms] lex_Code_step tl ne)
       (auto simp: step_at_def Let_def)
qed

lemma close_loop_lex:
  "close_loop doc i depth ln = Inr (close_tokens depth ln (lex Code i (drop i doc)))"
proof (induction "length doc - i" arbitrary: i depth ln rule: less_induct)
  case less
  show ?case
  proof (cases "i < length doc")
    case False
    then show ?thesis by (subst close_loop.simps) simp
  next
    case True
    have IH: "close_loop doc j d l = Inr (close_tokens d l (lex Code j (drop j doc)))" if "i < j" for j d l
      using less [of j d l] that True by simp
    show ?thesis
    proof (cases "step_at doc i")
      case Line
      with IH [of "i + 1"] show ?thesis
        by (simp add: close_loop_step [OF True] lex_Code_at [OF True])
    next
      case LineC
      obtain j' where j': "skip_line_comment doc (i + 2) = Inr j'" "i + 2 \<le> j'"
          "lex LineComment (i + 2) (drop (i + 2) doc) = lex Code j' (drop j' doc)"
        using skip_line_comment_lex [of doc "i + 2"] by blast
      with LineC IH [of j'] show ?thesis
        by (simp add: close_loop_step [OF True] lex_Code_at [OF True])
    next
      case BlockC
      obtain j' k where jk: "block_comment_loop doc (i + 2) ln = Inr (j', ln + int k)"
          "min (i + 2 + 2) (length doc) \<le> j'"
          "lex BlockComment (i + 2) (drop (i + 2) doc) = replicate k Newline @ lex Code j' (drop j' doc)"
        using block_comment_loop_lex [of doc "i + 2" ln] by blast
      from jk(2) True have "i < j'" by simp
      with BlockC jk IH [of j'] show ?thesis
        by (simp add: close_loop_step [OF True] lex_Code_at [OF True] skip_block_comment_def
            close_tokens_newlines)
    next
      case Quote
      obtain j' k where jk: "string_loop doc (i + 1) (doc ! i) ln = Inr (j', ln + int k)"
          "i + 1 \<le> j'"
          "lex (InString (doc ! i)) (i + 1) (drop (i + 1) doc)
           = replicate k Newline @ lex Code j' (drop j' doc)"
        using string_loop_lex [of doc "i + 1" "doc ! i" ln] by blast
      from jk(2) have "i < j'" by simp
      with Quote jk IH [of j'] show ?thesis
        by (simp add: close_loop_step [OF True] lex_Code_at [OF True] skip_string_def
            close_tokens_newlines)
    next
      case OpenP
      with IH [of "i + 1"] show ?thesis
        by (simp add: close_loop_step [OF True] lex_Code_at [OF True])
    next
      case CloseP
      with IH [of "i + 1"] show ?thesis
        by (simp add: close_loop_step [OF True] lex_Code_at [OF True])
    next
      case Other
      with IH [of "i + 1"] show ?thesis
        by (simp add: close_loop_step [OF True] lex_Code_at [OF True])
    qed
  qed
qed

lemma open_loop_lex:
  "open_loop doc i stack ln = Inr (open_tokens stack ln (lex Code i (drop i doc)))"
proof (induction "length doc - i" arbitrary: i stack ln rule: less_induct)
  case less
  show ?case
  proof (cases "i < length doc")
    case False
    then show ?thesis by (subst open_loop.simps) simp
  next
    case True
    have IH: "open_loop doc j s l = Inr (open_tokens s l (lex Code j (drop j doc)))" if "i < j" for j s l
      using less [of j s l] that True by simp
    show ?thesis
    proof (cases "step_at doc i")
      case Line
      with IH [of "i + 1"] show ?thesis
        by (simp add: open_loop_step [OF True] lex_Code_at [OF True])
    next
      case LineC
      obtain j' where j': "skip_line_comment doc (i + 2) = Inr j'" "i + 2 \<le> j'"
          "lex LineComment (i + 2) (drop (i + 2) doc) = lex Code j' (drop j' doc)"
        using skip_line_comment_lex [of doc "i + 2"] by blast
      with LineC IH [of j'] show ?thesis
        by (simp add: open_loop_step [OF True] lex_Code_at [OF True])
    next
      case BlockC
      obtain j' k where jk: "block_comment_loop doc (i + 2) ln = Inr (j', ln + int k)"
          "min (i + 2 + 2) (length doc) \<le> j'"
          "lex BlockComment (i + 2) (drop (i + 2) doc) = replicate k Newline @ lex Code j' (drop j' doc)"
        using block_comment_loop_lex [of doc "i + 2" ln] by blast
      from jk(2) True have "i < j'" by simp
      with BlockC jk IH [of j'] show ?thesis
        by (simp add: open_loop_step [OF True] lex_Code_at [OF True] skip_block_comment_def
            open_tokens_newlines)
    next
      case Quote
      obtain j' k where jk: "string_loop doc (i + 1) (doc ! i) ln = Inr (j', ln + int k)"
          "i + 1 \<le> j'"
          "lex (InString (doc ! i)) (i + 1) (drop (i + 1) doc)
           = replicate k Newline @ lex Code j' (drop j' doc)"
        using string_loop_lex [of doc "i + 1" "doc ! i" ln] by blast
      from jk(2) have "i < j'" by simp
      with Quote jk IH [of j'] show ?thesis
        by (simp add: open_loop_step [OF True] lex_Code_at [OF True] skip_string_def
            open_tokens_newlines)
    next
      case OpenP
      with IH [of "i + 1"] show ?thesis
        by (simp add: open_loop_step [OF True] lex_Code_at [OF True])
    next
      case CloseP
      with IH [of "i + 1"] show ?thesis
        by (simp add: open_loop_step [OF True] lex_Code_at [OF True])
    next
      case Other
      with IH [of "i + 1"] show ?thesis
        by (simp add: open_loop_step [OF True] lex_Code_at [OF True])
    qed
  qed
qed

lemma line_anchored_ok:
  assumes "line_anchored mk 0 0 (splitlines doc) it"
    and "\<And>n offs l. line (mk n offs l) = n \<and> span (mk n offs l) = (int offs, int offs + int (length l))"
  shows "issue_ok doc it \<and> (\<exists>n offs l. it = mk n offs l)"
proof -
  from assms(1) obtain k where k: "k < length (splitlines doc)"
    "it = mk (int (0 + k) + 1) (0 + length (concat (take k (splitlines doc)))) (splitlines doc ! k)"
    unfolding line_anchored_def by blast
  from length_concat_take [OF k(1)]
  have "length (concat (take k (splitlines doc))) + length (splitlines doc ! k) \<le> length doc"
    by (simp add: concat_splitlines)
  with k(2) assms(2) show ?thesis
    unfolding issue_ok_def by auto
qed

lemma cpptext_ok:
  assumes "find_cpptext_missing_brace doc = Inr xs" "it \<in> set xs"
  shows "issue_ok doc it \<and> (\<exists>n offs l. it = cpptext_issue n offs l)"
proof -
  from assms have "line_anchored cpptext_issue 0 0 (splitlines doc) it"
    by (auto simp: find_cpptext_missing_brace_def Let_def dest: cpptext_lines_anchored)
  then show ?thesis
    by (rule line_anchored_ok) (simp add: cpptext_issue_def)
qed

lemma semicolon_ok:
  assumes "it \<in> set (check_semicolons_strict doc)"
  shows "issue_ok doc it \<and> (\<exists>n offs l. it = semicolon_issue n offs l)"
proof -
  from assms have "line_anchored semicolon_issue 0 0 (splitlines doc) it"
    by (auto simp: check_semicolons_strict_def dest: semicolon_lines_anchored)
  then show ?thesis
    by (rule line_anchored_ok) (simp add: semicolon_issue_def)
qed

lemma control_paren_ok:
  assumes "it \<in> set (extended_control_paren_balance doc)"
  shows "issue_ok doc it \<and> (\<exists>n offs l. it = control_paren_issue n offs l)"
proof -
  from assms have "line_anchored control_paren_issue 0 0 (splitlines doc) it"
    by (auto simp: extended_control_paren_balance_def dest: control_paren_lines_anchored)
  then show ?thesis
    by (rule line_anchored_ok) (simp add: control_paren_issue_def)
qed

lemma safe_close_balance_ok:
  "it \<in> set (safe_close_balance doc) \<Longrightarrow> issue_ok doc it \<and> kind it = ''brace-balance''"
  by (auto simp: safe_close_balance_def issue_ok_def Let_def split: if_splits)

lemma paren_balance_ok:
  "it \<in> set (paren_balance_issues doc) \<Longrightarrow> issue_ok doc it \<and> kind it = ''paren-balance'' \<and> apply_fn it = None"
  by (auto simp: paren_balance_issues_def issue_ok_def Let_def split: if_splits)

lemma defaultprops_ok:
  assumes "it \<in> set (check_defaultproperties doc)"
  shows "issue_ok doc it \<and> (\<exists>m. it = defaultprops_issue doc m)"
proof -
  from check_defaultproperties_shape [OF assms]
  obtain s e where se: "it = defaultprops_issue doc (s, e)" "s \<le> e" "e \<le> length doc" by blast
  then have "issue_ok doc it"
    by (simp add: defaultprops_issue_def issue_ok_def Let_def)
  with se(1) show ?thesis by blast
qed

lemma struct_enum_ok:
  assumes "extended_struct_enum_closer doc = Inr xs" "it \<in> set xs"
  shows "issue_ok doc it \<and> (\<exists>m pos. it = struct_enum_issue doc m pos)"
proof -
  from assms obtain m pos where m: "m \<in> set (struct_enum_finditer doc)" "it = struct_enum_issue doc m pos"
    unfolding extended_struct_enum_closer_def using struct_enum_matches_shape by blast
  obtain s e g where seg: "m = (s, e, g)" by (cases m)
  with m(1) struct_enum_finditer_from_bounds [of s e g 0 True 0 doc]
  have "s \<le> e \<and> e \<le> length doc" by (simp add: struct_enum_finditer_def)
  with m(2) seg have "issue_ok doc it"
    by (simp add: struct_enum_issue_def issue_ok_def Let_def)
  with m(2) show ?thesis by blast
qed

lemma lex_positions:
  "t \<in> set (lex m i s) \<Longrightarrow> t = Open p \<or> t = Close p \<Longrightarrow> i \<le> p \<and> p < i + length s"
  by (induction m i s rule: lex.induct) (auto split: if_splits)

lemma close_tokens_shape:
  "it \<in> set (close_tokens depth ln ts) \<Longrightarrow> \<exists>p l. it = unmatched_close_issue p l \<and> Close p \<in> set ts \<and> ln \<le> l"
  by (induction depth ln ts rule: close_tokens.induct) (fastforce split: if_splits)+

lemma close_paren_eq:
  "extended_unmatched_close_paren doc = Inr (close_tokens 0 1 (lex Code 0 doc))"
  by (simp add: extended_unmatched_close_paren_def close_loop_lex)

lemma close_paren_ok:
  assumes "extended_unmatched_close_paren doc = Inr xs" "it \<in> set xs"
  shows "issue_ok doc it \<and> (\<exists>p l. it = unmatched_close_issue p l)"
proof -
  from assms have "it \<in> set (close_tokens 0 1 (lex Code 0 doc))" by (simp add: close_paren_eq)
  from close_tokens_shape [OF this] obtain p l where pl: "it = unmatched_close_issue p l"
      "Close p \<in> set (lex Code 0 doc)" "1 \<le> l" by blast
  from lex_positions [OF pl(2)] have "p < length doc" by simp
  with pl(1,3) have "issue_ok doc it" by (simp add: unmatched_close_issue_def issue_ok_def)
  with pl(1) show ?thesis by blast
qed

lemma open_tokens_shape:
  "x \<in> set (open_tokens stack ln ts) \<Longrightarrow> x \<in> set stack \<or> (Open (fst x) \<in> set ts \<and> ln \<le> snd x)"
proof (induction stack ln ts rule: open_tokens.induct)
  case (4 stack ln p ts)
  then have "x \<in> set (if stack \<noteq> [] then butlast stack else stack) \<or> (Open (fst x) \<in> set ts \<and> ln \<le> snd x)"
    by simp
  then show ?case by (auto dest: in_set_butlastD split: if_splits)
qed fastforce+

lemma list_at_last: "xs \<noteq> [] \<Longrightarrow> list_at xs (- 1) = Inr (last xs)"
  by (cases xs rule: rev_cases) (auto simp: list_at_def py_index_def)

lemma open_paren_eq:
  "extended_unmatched_open_paren doc =
     Inr (let stack = open_tokens [] 1 (lex Code 0 doc)
          in if stack = [] then [] else [unmatched_open_issue (fst (last stack)) (snd (last stack))])"
  by (simp add: extended_unmatched_open_paren_def open_loop_lex list_at_last Let_def split: prod.splits)

lemma open_paren_ok:
  assumes "extended_unmatched_open_paren doc = Inr xs" "it \<in> set xs"
  shows "issue_ok doc it \<and> (\<exists>p l. it = unmatched_open_issue p l) \<and> xs = [it]"
proof -
  define stack where "stack = open_tokens [] 1 (lex Code 0 doc)"
  from assms have ne: "stack \<noteq> []" and it: "it = unmatched_open_issue (fst (last stack)) (snd (last stack))"
    and xs: "xs = [it]"
    by (auto simp: open_paren_eq stack_def Let_def split: if_splits)
  from ne have "last stack \<in> set stack" by simp
  from open_tokens_shape [OF this [unfolded stack_def]]
  have o: "Open (fst (last stack)) \<in> set (lex Code 0 doc)" "1 \<le> snd (last stack)"
    by (auto simp: stack_def)
  from lex_positions [OF o(1)] have "fst (last stack) < length doc" by simp
  with it o(2) have "issue_ok doc it" by (simp add: unmatched_open_issue_def issue_ok_def)
  with it xs show ?thesis by blast
qed

lemma detector_output_total:
  "\<exists>cpp se pc. find_cpptext_missing_brace doc = Inr cpp \<and> extended_struct_enum_closer doc = Inr se
     \<and> extended_unmatched_close_paren doc = Inr pc
     \<and> detector_output doc extended =
         Inr (cpp @ safe_close_balance doc @ check_defaultproperties doc @ check_semicolons_strict doc
              @ paren_balance_issues doc
              @ (if extended then extended_control_paren_balance doc @ se @ pc else []))"
proof -
  obtain cpp where cpp: "find_cpptext_missing_brace doc = Inr cpp"
    unfolding find_cpptext_missing_brace_def Let_def using cpptext_lines_total by blast
  obtain se where se: "extended_struct_enum_closer doc = Inr se"
    unfolding extended_struct_enum_closer_def using struct_enum_matches_total by blast
  obtain pc where pc: "extended_unmatched_close_paren doc = Inr pc"
    using close_paren_eq by blast
  from cpp se pc show ?thesis
    by (simp add: detector_output_def Let_def)
qed

lemma scan_now_total:
  "\<exists>raw more. detector_output doc extended = Inr raw \<and> extended_unmatched_open_paren doc = Inr more
     \<and> scan_doc_for_issues doc extended = Inr (firsts issue_key {} raw)
     \<and> scan_now doc extended unmatched_open
        = Inr (firsts issue_key {} raw @ (if unmatched_open then more else []))"
proof -
  obtain raw where raw: "detector_output doc extended = Inr raw"
    using detector_output_total by blast
  obtain more where more: "extended_unmatched_open_paren doc = Inr more"
    using open_paren_eq by blast
  from raw have "scan_doc_for_issues doc extended = Inr (firsts issue_key {} raw)"
    by (simp add: scan_doc_for_issues_def dedup_loop_firsts)
  with raw more show ?thesis
    by (simp add: scan_now_def)
qed

lemma raw_issue_cases:
  assumes "detector_output doc extended = Inr raw" "it \<in> set raw"
  shows "issue_ok doc it \<and>
     ((\<exists>n offs l. it = cpptext_issue n offs l) \<or> it \<in> set (safe_close_balance doc)
      \<or> (\<exists>m. it = defaultprops_issue doc m) \<or> (\<exists>n offs l. it = semicolon_issue n offs l)
      \<or> it \<in> set (paren_balance_issues doc)
      \<or> (extended \<and> ((\<exists>n offs l. it = control_paren_issue n offs l)
                       \<or> (\<exists>m pos. it = struct_enum_issue doc m pos)
                       \<or> (\<exists>p l. it = unmatched_close_issue p l))))"
proof -
  from detector_output_total [of doc extended] assms(1)
  obtain cpp se pc where c: "find_cpptext_missing_brace doc = Inr cpp"
      "extended_struct_enum_closer doc = Inr se" "extended_unmatched_close_paren doc = Inr pc"
      "raw = cpp @ safe_close_balance doc @ check_defaultproperties doc @ check_semicolons_strict doc
              @ paren_balance_issues doc
              @ (if extended then extended_control_paren_balance doc @ se @ pc else [])"
    by auto
  from assms(2) c(4)
  consider "it \<in> set cpp" | "it \<in> set (safe_close_balance doc)" | "it \<in> set (check_defaultproperties doc)"
    | "it \<in> set (check_semicolons_strict doc)" | "it \<in> set (paren_balance_issues doc)"
    | "extended" "it \<in> set (extended_control_paren_balance doc)"
    | "extended" "it \<in> set se" | "extended" "it \<in> set pc"
    by (auto split: if_splits)
  then show ?thesis
  proof cases
    case 1 with cpptext_ok [OF c(1)] show ?thesis by blast
  next
    case 2 with safe_close_balance_ok show ?thesis by blast
  next
    case 3 with defaultprops_ok show ?thesis by blast
  next
    case 4 with semicolon_ok show ?thesis by blast
  next
    case 5 with paren_balance_ok show ?thesis by blast
  next
    case 6 with control_paren_ok show ?thesis by blast
  next
    case 7 with struct_enum_ok [OF c(2)] show ?thesis by blast
  next
    case 8 with close_paren_ok [OF c(3)] show ?thesis by blast
  qed
qed

lemma raw_issue_not_open:
  assumes "detector_output doc extended = Inr raw" "it \<in> set raw"
  shows "kind it \<noteq> ''paren-extra-open''"
  using raw_issue_cases [OF assms] safe_close_balance_ok [of it doc] paren_balance_ok [of it doc]
  by (auto simp: cpptext_issue_def defaultprops_issue_def semicolon_issue_def control_paren_issue_def
      struct_enum_issue_def unmatched_close_issue_def Let_def)

lemma scan_now_members:
  assumes "scan_now doc extended unmatched_open = Inr issues" "it \<in> set issues"
  shows "(\<exists>raw. detector_output doc extended = Inr raw \<and> it \<in> set raw)
         \<or> (unmatched_open \<and> extended_unmatched_open_paren doc = Inr [it])"
proof -
  from scan_now_total [of doc extended unmatched_open] assms(1)
  obtain raw more where r: "detector_output doc extended = Inr raw"
      "extended_unmatched_open_paren doc = Inr more"
      "issues = firsts issue_key {} raw @ (if unmatched_open then more else [])"
    by auto
  from assms(2) r(3) have "it \<in> set (firsts issue_key {} raw) \<or> (unmatched_open \<and> it \<in> set more)"
    by (auto split: if_splits)
  then show ?thesis
  proof
    assume "it \<in> set (firsts issue_key {} raw)"
    with firsts_subset [of issue_key "{}" raw] r(1) show ?thesis by blast
  next
    assume a: "unmatched_open \<and> it \<in> set more"
    with open_paren_ok [OF r(2)] have "more = [it]" by blast
    with a r(2) show ?thesis by simp
  qed
qed

lemma scan_example_keys:
  "map_sum id (map issue_key) (scan_now ''DoThing(x));\<newline>'' True True)
   = Inr [(''paren-balance'', 1, ''Unbalanced parentheses: More '' @ [CHR 0x27] @ '')'' @ [CHR 0x27]
             @ '' than '' @ [CHR 0x27] @ ''('' @ [CHR 0x27] @ ''.'', (0, 13)),
          (''paren-extra-close'', 1, ''Unmatched '' @ [CHR 0x27] @ '')'' @ [CHR 0x27] @ '' at line 1.'',
             (10, 11))]"
  by code_simp

lemma skip_line_comment_open:
  "j \<le> length doc \<Longrightarrow> NL \<notin> set (drop j doc) \<Longrightarrow> skip_line_comment doc j = Inr (length doc)"
proof (induction doc j rule: skip_line_comment.induct)
  case (1 doc j)
  show ?case
  proof (cases "j < length doc")
    case False
    with "1.prems" show ?thesis by (subst skip_line_comment.simps) simp
  next
    case True
    then have ca: "char_at doc j = Inr (doc ! j)" by (simp add: char_at_def)
    from "1.prems"(2) True have nl: "doc ! j \<noteq> NL" "NL \<notin> set (drop (j + 1) doc)"
      by (auto simp: drop_step)
    from "1.IH" [OF True ca nl(1)] True nl(2)
    have "skip_line_comment doc (j + 1) = Inr (length doc)" by simp
    with True ca nl(1) show ?thesis by (subst skip_line_comment.simps) simp
  qed
qed

lemma block_comment_loop_open:
  "\<not> sublist ''*/'' (drop j doc) \<Longrightarrow> \<exists>ln'. block_comment_loop doc j ln = Inr (length doc, ln')"
proof (induction doc j ln rule: block_comment_loop.induct)
  case (1 doc j ln)
  show ?case
  proof (cases "j + 1 < length doc")
    case False
    then show ?thesis by (subst block_comment_loop.simps) simp
  next
    case True
    then have ca: "char_at doc j = Inr (doc ! j)" "char_at doc (j + 1) = Inr (doc ! (j + 1))"
      by (simp_all add: char_at_def)
    from True have d: "drop j doc = doc ! j # doc ! (j + 1) # drop (j + 2) doc"
      by (simp add: drop_step)
    from True have d1: "drop j doc = doc ! j # drop (j + 1) doc"
      by (simp add: drop_step)
    from "1.prems" have rest: "\<not> sublist ''*/'' (drop (j + 1) doc)"
      by (simp add: d1 sublist_Cons_right)
    from "1.prems" have ne: "\<not> (doc ! j = CHR ''*'' \<and> doc ! (j + 1) = CHR ''/'')"
      by (auto simp: d sublist_Cons_right)
    show ?thesis
    proof (cases "doc ! j = CHR ''*''")
      case star: True
      with ne have ns: "doc ! (j + 1) \<noteq> CHR ''/''" by simp
      from "1.IH"(1) [OF True ca(1) star ca(2) ns rest]
      obtain ln' where "block_comment_loop doc (j + 1) ln = Inr (length doc, ln')" by blast
      with True ca star ns show ?thesis by (subst block_comment_loop.simps) simp
    next
      case False
      from "1.IH"(2) [OF True ca(1) False rest]
      obtain ln' where
        "block_comment_loop doc (j + 1) (if doc ! j = NL then ln + 1 else ln) = Inr (length doc, ln')"
        by blast
      with True ca False show ?thesis by (subst block_comment_loop.simps) simp
    qed
  qed
qed

lemma string_loop_open:
  "\<not> closed_string q (drop j doc) \<Longrightarrow>
   \<exists>j' ln'. string_loop doc j q ln = Inr (j', ln') \<and> length doc \<le> j'"
proof (induction doc j q ln rule: string_loop.induct)
  case (1 doc j q ln)
  show ?case
  proof (cases "j < length doc")
    case False
    then show ?thesis by (subst string_loop.simps) simp
  next
    case True
    then have ca: "char_at doc j = Inr (doc ! j)" by (simp add: char_at_def)
    from True have d: "drop j doc = doc ! j # drop (j + 1) doc" by (simp add: drop_step)
    show ?thesis
    proof (cases "doc ! j = CHR 0x5C")
      case bs: True
      from "1.prems" bs have "\<not> closed_string q (drop (j + 2) doc)" by (simp add: d)
      from "1.IH"(1) [OF True ca bs this]
      obtain j' ln' where "string_loop doc (j + 2) q ln = Inr (j', ln')" "length doc \<le> j'" by blast
      with True ca bs show ?thesis by (subst string_loop.simps) simp
    next
      case False
      from "1.prems" False have nq: "doc ! j \<noteq> q" and rest: "\<not> closed_string q (drop (j + 1) doc)"
        by (simp_all add: d)
      from "1.IH"(2) [OF True ca False nq rest]
      obtain j' ln' where
        "string_loop doc (j + 1) q (if doc ! j = NL then ln + 1 else ln) = Inr (j', ln')"
        "length doc \<le> j'" by blast
      with True ca False nq show ?thesis by (subst string_loop.simps) simp
    qed
  qed
qed

lemma close_loop_end: "length doc \<le> j \<Longrightarrow> close_loop doc j depth ln = Inr []"
  by (subst close_loop.simps) simp

lemma open_loop_end: "length doc \<le> j \<Longrightarrow> open_loop doc j stack ln = Inr stack"
  by (subst open_loop.simps) simp




section \<open>Properties of the scanner\<close>

subsection \<open>The brace-balance detector (C3)\<close>

text \<open>
  C3, as the code has it. The detector counts every \<open>{\<close> and \<open>}\<close> of the document, comments
  and strings included. More \<open>}\<close> than \<open>{\<close>: exactly one issue, of kind brace-balance, with no
  repair. More \<open>{\<close> than \<open>}\<close>, by any amount: exactly one issue, whose repair, applied to a
  text \<open>t\<close>, inserts the two characters \<open>}\<close> and newline at the start of the first match of
  the top-level pattern in \<open>t\<close> (a line start, before the white space that may precede the
  keyword), or at the end of \<open>t\<close> when the pattern matches nowhere. Equal counts: no issue.
\<close>

theorem brace_balance_detector:
  "(count_char (CHR ''{'') doc < count_char (CHR ''}'') doc \<longrightarrow>
      (\<exists>it. safe_close_balance doc = [it] \<and> kind it = ''brace-balance'' \<and> apply_fn it = None))
   \<and> (count_char (CHR ''}'') doc < count_char (CHR ''{'') doc \<longrightarrow>
      (\<exists>it f. safe_close_balance doc = [it] \<and> kind it = ''brace-balance'' \<and> apply_fn it = Some f \<and>
         (\<forall>t. \<exists>k. f t = Inr (take k t @ ''}\<newline>'' @ drop k t) \<and>
                (first_top_level_match t k \<or> (k = length t \<and> (\<forall>j. \<not> top_level_match_at t j))))))
   \<and> (count_char (CHR ''{'') doc = count_char (CHR ''}'') doc \<longrightarrow> safe_close_balance doc = [])"
proof (intro conjI impI)
  assume "count_char (CHR ''{'') doc < count_char (CHR ''}'') doc"
  then have "count_braces doc < 0" by (simp add: count_braces_eq)
  then show "\<exists>it. safe_close_balance doc = [it] \<and> kind it = ''brace-balance'' \<and> apply_fn it = None"
    by (simp add: safe_close_balance_def Let_def)
next
  assume "count_char (CHR ''}'') doc < count_char (CHR ''{'') doc"
  then have "0 < count_braces doc" by (simp add: count_braces_eq)
  then have "\<exists>it. safe_close_balance doc = [it] \<and> kind it = ''brace-balance''
               \<and> apply_fn it = Some safe_close_balance_apply"
    by (simp add: safe_close_balance_def Let_def)
  with safe_close_balance_apply_eq
  show "\<exists>it f. safe_close_balance doc = [it] \<and> kind it = ''brace-balance'' \<and> apply_fn it = Some f \<and>
         (\<forall>t. \<exists>k. f t = Inr (take k t @ ''}\<newline>'' @ drop k t) \<and>
                (first_top_level_match t k \<or> (k = length t \<and> (\<forall>j. \<not> top_level_match_at t j))))"
    by blast
next
  assume "count_char (CHR ''{'') doc = count_char (CHR ''}'') doc"
  then have "count_braces doc = 0" by (simp add: count_braces_eq)
  then show "safe_close_balance doc = []"
    by (simp add: safe_close_balance_def Let_def)
qed

theorem brace_balance_detector_witness:
  "(\<exists>it. safe_close_balance ''}'' = [it] \<and> kind it = ''brace-balance'' \<and> apply_fn it = None)
   \<and> (\<exists>it f. safe_close_balance ''{{'' = [it] \<and> kind it = ''brace-balance'' \<and> apply_fn it = Some f
         \<and> f ''x'' = Inr ''x}\<newline>'')
   \<and> safe_close_balance ''{}'' = []"
proof (intro conjI)
  have "count_char (CHR ''{'') ''}'' < count_char (CHR ''}'') ''}''"
    by (simp add: count_char_def)
  with brace_balance_detector [of "''}''"]
  show "\<exists>it. safe_close_balance ''}'' = [it] \<and> kind it = ''brace-balance'' \<and> apply_fn it = None"
    by blast
next
  have "count_char (CHR ''}'') ''{{'' < count_char (CHR ''{'') ''{{''"
    by (simp add: count_char_def)
  with brace_balance_detector [of "''{{''"]
  obtain it f where it: "safe_close_balance ''{{'' = [it]" "kind it = ''brace-balance''"
      "apply_fn it = Some f"
    and f: "\<forall>t. \<exists>k. f t = Inr (take k t @ ''}\<newline>'' @ drop k t) \<and>
                (first_top_level_match t k \<or> (k = length t \<and> (\<forall>j. \<not> top_level_match_at t j)))"
    by blast
  from f obtain k where k: "f ''x'' = Inr (take k ''x'' @ ''}\<newline>'' @ drop k ''x'')"
      "first_top_level_match ''x'' k \<or> k = length ''x''"
    by blast
  have "\<not> top_level_match_at ''x'' j" for j
    by (cases j) (simp_all add: top_level_match_at_def top_level_here_def top_level_keywords_def
        kw_here_def ci_prefix_def lstrip_def is_space_def)
  with k(2) have "k = 1" by (auto simp: first_top_level_match_def)
  with k(1) have "f ''x'' = Inr ''x}\<newline>''" by simp
  with it show "\<exists>it f. safe_close_balance ''{{'' = [it] \<and> kind it = ''brace-balance''
      \<and> apply_fn it = Some f \<and> f ''x'' = Inr ''x}\<newline>''"
    by blast
next
  have "count_char (CHR ''{'') ''{}'' = count_char (CHR ''}'') ''{}''"
    by (simp add: count_char_def)
  with brace_balance_detector [of "''{}''"] show "safe_close_balance ''{}'' = []"
    by blast
qed

text \<open>
  The claim as written puts a single \<open>}\<close> immediately before the keyword. In the document
  of two lines \<open>{\<close> and \<open> class\<close> the keyword \<open>class\<close> is at position 3; the repair gives the
  three lines \<open>{\<close>, \<open>}\<close> and \<open> class\<close>, which is not the text with \<open>}\<close> put at position 3.
\<close>

theorem brace_balance_repair_counterexample:
  "kw_search ''class'' ''{\<newline> class'' = Some 3
   \<and> repair_results ''brace-balance'' (Inr (safe_close_balance ''{\<newline> class'')) ''{\<newline> class''
       = [(1, Some (Inr ''{\<newline>}\<newline> class''))]
   \<and> ''{\<newline>}\<newline> class'' \<noteq> take 3 ''{\<newline> class'' @ ''}'' @ drop 3 ''{\<newline> class''"
  by code_simp

subsection \<open>The defaultproperties scenario (C4)\<close>

text \<open>
  C4, as the code has it. On the document of the two lines \<open>defaultproperties\<close> and
  \<open>Health=100\<close>, under every mode, the scan reports exactly one defaultprops-brace issue, at
  line 1, and its repair applied to the same document inserts a space, \<open>{\<close>, newline, \<open>}\<close>
  and newline right after the keyword: the newline that ended the keyword's line follows
  them, so the result has an empty line between \<open>}\<close> and \<open>Health=100\<close>.
\<close>

theorem defaultprops_scenario:
  "repair_results ''defaultprops-brace''
     (scan_now ''defaultproperties\<newline>Health=100\<newline>'' extended unmatched_open)
     ''defaultproperties\<newline>Health=100\<newline>''
   = [(1, Some (Inr ''defaultproperties {\<newline>}\<newline>\<newline>Health=100\<newline>''))]"
proof -
  have "repair_results ''defaultprops-brace''
     (scan_now ''defaultproperties\<newline>Health=100\<newline>'' b c)
     ''defaultproperties\<newline>Health=100\<newline>''
   = [(1, Some (Inr ''defaultproperties {\<newline>}\<newline>\<newline>Health=100\<newline>''))]"
    if "b \<in> {True, False}" "c \<in> {True, False}" for b c
    using that by (elim insertE emptyE; hypsubst; code_simp)
  then show ?thesis by simp
qed

text \<open>
  The text the claim gives, with no empty line, is not what the repair returns.
\<close>

theorem defaultprops_scenario_counterexample:
  "repair_results ''defaultprops-brace''
     (scan_now ''defaultproperties\<newline>Health=100\<newline>'' False False)
     ''defaultproperties\<newline>Health=100\<newline>''
   \<noteq> [(1, Some (Inr ''defaultproperties {\<newline>}\<newline>Health=100\<newline>''))]"
  by code_simp

subsection \<open>The scan never raises (C8)\<close>

text \<open>
  C8. For every document and every mode (strict or extended, the unmatched-open toggle on or
  off) the scan returns an issue list: no index of the detectors is ever out of range, on
  any text, so nothing is raised, whatever comments, strings or blocks the text leaves
  open; every loop of the scan is a function whose termination is proved above, so the
  scan also ends. A lexical construct that is not terminated extends to the end of the
  document: \<open>skip_line_comment\<close> on a comment with no newline after it and
  \<open>skip_block_comment\<close> on a comment with no \<open>*/\<close> after its opening return the length of
  the document, \<open>skip_string\<close> on a string with no closing quote returns a position at or
  after the end, and the loops of the two parenthesis detectors, when they meet such a
  construct at position \<open>i\<close>, end there: the first reports nothing, the second leaves its
  stack as it is, whatever parentheses follow.
\<close>

theorem scan_never_raises:
  "(\<exists>issues. scan_now doc extended unmatched_open = Inr issues)
   \<and> (j \<le> length doc \<and> NL \<notin> set (drop j doc) \<longrightarrow> skip_line_comment doc j = Inr (length doc))
   \<and> (\<not> sublist ''*/'' (drop (i + 2) doc) \<longrightarrow>
        (\<exists>ln'. skip_block_comment doc i ln = Inr (length doc, ln')))
   \<and> (\<not> closed_string q (drop (i + 1) doc) \<longrightarrow>
        (\<exists>j' ln'. skip_string doc i q ln = Inr (j', ln') \<and> length doc \<le> j'))
   \<and> (i + 1 < length doc \<and> doc ! i = CHR ''/'' \<and> doc ! (i + 1) = CHR ''/''
        \<and> NL \<notin> set (drop (i + 2) doc) \<longrightarrow>
        close_loop doc i depth ln = Inr [] \<and> open_loop doc i stack ln = Inr stack)
   \<and> (i + 1 < length doc \<and> doc ! i = CHR ''/'' \<and> doc ! (i + 1) = CHR ''*''
        \<and> \<not> sublist ''*/'' (drop (i + 2) doc) \<longrightarrow>
        close_loop doc i depth ln = Inr [] \<and> open_loop doc i stack ln = Inr stack)
   \<and> (i < length doc \<and> (doc ! i = CHR 0x27 \<or> doc ! i = CHR 0x22)
        \<and> \<not> closed_string (doc ! i) (drop (i + 1) doc) \<longrightarrow>
        close_loop doc i depth ln = Inr [] \<and> open_loop doc i stack ln = Inr stack)"
proof (intro conjI impI)
  show "\<exists>issues. scan_now doc extended unmatched_open = Inr issues"
    using scan_now_total [of doc extended unmatched_open] by blast
next
  assume "j \<le> length doc \<and> NL \<notin> set (drop j doc)"
  then show "skip_line_comment doc j = Inr (length doc)"
    by (simp add: skip_line_comment_open)
next
  assume "\<not> sublist ''*/'' (drop (i + 2) doc)"
  then show "\<exists>ln'. skip_block_comment doc i ln = Inr (length doc, ln')"
    unfolding skip_block_comment_def by (rule block_comment_loop_open)
next
  assume "\<not> closed_string q (drop (i + 1) doc)"
  then show "\<exists>j' ln'. skip_string doc i q ln = Inr (j', ln') \<and> length doc \<le> j'"
    unfolding skip_string_def by (rule string_loop_open)
next
  assume a: "i + 1 < length doc \<and> doc ! i = CHR ''/'' \<and> doc ! (i + 1) = CHR ''/''
        \<and> NL \<notin> set (drop (i + 2) doc)"
  then have s: "step_at doc i = LineC" by (simp add: step_at_def)
  from a have k: "skip_line_comment doc (i + 2) = Inr (length doc)"
    by (simp add: skip_line_comment_open)
  from a s k show "close_loop doc i depth ln = Inr []"
    by (simp add: close_loop_step close_loop_end)
  from a s k show "open_loop doc i stack ln = Inr stack"
    by (simp add: open_loop_step open_loop_end)
next
  assume a: "i + 1 < length doc \<and> doc ! i = CHR ''/'' \<and> doc ! (i + 1) = CHR ''*''
        \<and> \<not> sublist ''*/'' (drop (i + 2) doc)"
  then have s: "step_at doc i = BlockC" by (simp add: step_at_def)
  from a obtain ln' where k: "skip_block_comment doc i ln = Inr (length doc, ln')"
    unfolding skip_block_comment_def using block_comment_loop_open by blast
  from a s k show "close_loop doc i depth ln = Inr []"
    by (simp add: close_loop_step close_loop_end)
  from a s k show "open_loop doc i stack ln = Inr stack"
    by (simp add: open_loop_step open_loop_end)
next
  assume a: "i < length doc \<and> (doc ! i = CHR 0x27 \<or> doc ! i = CHR 0x22)
        \<and> \<not> closed_string (doc ! i) (drop (i + 1) doc)"
  then have s: "step_at doc i = Quote" by (auto simp: step_at_def)
  from a obtain j' ln' where k: "skip_string doc i (doc ! i) ln = Inr (j', ln')" "length doc \<le> j'"
    unfolding skip_string_def using string_loop_open by blast
  from a s k show "close_loop doc i depth ln = Inr []"
    by (simp add: close_loop_step close_loop_end)
  from a s k show "open_loop doc i stack ln = Inr stack"
    by (simp add: open_loop_step open_loop_end)
qed

theorem scan_never_raises_witness:
  "(\<exists>issues. scan_now ''f(x) /* ) ('' True True = Inr issues)
   \<and> skip_line_comment ''h() // ) ('' 6 = Inr (length ''h() // ) ('')
   \<and> (\<exists>ln'. skip_block_comment ''f(x) /* ) ('' 5 1 = Inr (length ''f(x) /* ) ('', ln'))
   \<and> (\<exists>j' ln'. skip_string (''g(y) + '' @ [CHR 0x22] @ ''a)('') 7 (CHR 0x22) 1 = Inr (j', ln')
         \<and> length (''g(y) + '' @ [CHR 0x22] @ ''a)('') \<le> j')
   \<and> close_loop ''h() // ) ('' 4 0 1 = Inr [] \<and> open_loop ''h() // ) ('' 4 [] 1 = Inr []
   \<and> close_loop ''f(x) /* ) ('' 5 0 1 = Inr [] \<and> open_loop ''f(x) /* ) ('' 5 [] 1 = Inr []
   \<and> close_loop (''g(y) + '' @ [CHR 0x22] @ ''a)('') 7 0 1 = Inr []
   \<and> open_loop (''g(y) + '' @ [CHR 0x22] @ ''a)('') 7 [] 1 = Inr []"
proof -
  have a: "\<not> sublist ''*/'' (drop (5 + 2) ''f(x) /* ) ('')"
    by (simp add: sublist_Cons_right)
  have b: "\<not> closed_string (CHR 0x22) (drop (7 + 1) (''g(y) + '' @ [CHR 0x22] @ ''a)(''))"
    by simp
  have c: "NL \<notin> set (drop 6 ''h() // ) ('')"
    by simp
  from a scan_never_raises [of "''f(x) /* ) (''" True True 0 5 1 "CHR 0x22" 0 "[]"]
  have 1: "(\<exists>issues. scan_now ''f(x) /* ) ('' True True = Inr issues)
      \<and> (\<exists>ln'. skip_block_comment ''f(x) /* ) ('' 5 1 = Inr (length ''f(x) /* ) ('', ln'))
      \<and> close_loop ''f(x) /* ) ('' 5 0 1 = Inr [] \<and> open_loop ''f(x) /* ) ('' 5 [] 1 = Inr []"
    by simp
  from b scan_never_raises [of "''g(y) + '' @ [CHR 0x22] @ ''a)(''" True True 0 7 1 "CHR 0x22" 0 "[]"]
  have 2: "(\<exists>j' ln'. skip_string (''g(y) + '' @ [CHR 0x22] @ ''a)('') 7 (CHR 0x22) 1 = Inr (j', ln')
         \<and> length (''g(y) + '' @ [CHR 0x22] @ ''a)('') \<le> j')
      \<and> close_loop (''g(y) + '' @ [CHR 0x22] @ ''a)('') 7 0 1 = Inr []
      \<and> open_loop (''g(y) + '' @ [CHR 0x22] @ ''a)('') 7 [] 1 = Inr []"
    by simp
  from c scan_never_raises [of "''h() // ) (''" True True 6 4 1 "CHR 0x22" 0 "[]"]
  have 3: "skip_line_comment ''h() // ) ('' 6 = Inr (length ''h() // ) ('')
      \<and> close_loop ''h() // ) ('' 4 0 1 = Inr [] \<and> open_loop ''h() // ) ('' 4 [] 1 = Inr []"
    by simp
  from 1 2 3 show ?thesis by blast
qed

subsection \<open>Lines and spans of the issues (C10)\<close>

text \<open>
  C10. For every document and every mode, every issue of a scan has a line number of at
  least 1 and a span \<open>(start, end)\<close> with \<open>0 \<le> start \<le> end \<le> length of the document\<close>.
\<close>

theorem issue_bounds:
  assumes "scan_now doc extended unmatched_open = Inr issues" and "it \<in> set issues"
  shows "1 \<le> line it \<and> 0 \<le> fst (span it) \<and> fst (span it) \<le> snd (span it)
         \<and> snd (span it) \<le> int (length doc)"
proof -
  from scan_now_members [OF assms]
  have "issue_ok doc it"
  proof
    assume "\<exists>raw. detector_output doc extended = Inr raw \<and> it \<in> set raw"
    with raw_issue_cases show ?thesis by blast
  next
    assume "unmatched_open \<and> extended_unmatched_open_paren doc = Inr [it]"
    with open_paren_ok [of doc "[it]" it] show ?thesis by simp
  qed
  then show ?thesis by (simp add: issue_ok_def)
qed

theorem issue_bounds_witness:
  "\<exists>issues it. scan_now ''DoThing(x));\<newline>'' True True = Inr issues \<and> it \<in> set issues
     \<and> kind it = ''paren-extra-close'' \<and> span it = (10, 11)
     \<and> 1 \<le> line it \<and> 0 \<le> fst (span it) \<and> fst (span it) \<le> snd (span it)
     \<and> snd (span it) \<le> int (length ''DoThing(x));\<newline>'')"
proof -
  obtain issues where s: "scan_now ''DoThing(x));\<newline>'' True True = Inr issues"
    using scan_now_total by blast
  with scan_example_keys obtain a b where ab: "issues = [a, b]"
      "issue_key b = (''paren-extra-close'', 1, ''Unmatched '' @ [CHR 0x27] @ '')'' @ [CHR 0x27] @ '' at line 1.'', (10, 11))"
    by (auto simp: map_eq_Cons_conv)
  then have b: "b \<in> set issues" "kind b = ''paren-extra-close''" "span b = (10, 11)"
    by (simp_all add: issue_key_def)
  from issue_bounds [OF s b(1)] s b show ?thesis by blast
qed

subsection \<open>Deduplication of the issue list (C5)\<close>

text \<open>
  C5. For every document and mode, \<open>scan_doc_for_issues\<close> returns the detector output
  passed through the loop over the dictionary of keys \<open>(kind, line, message, span)\<close>, and
  the list of a scan (with the issue the unmatched-open detector may add after it) has no
  two issues with the same key. The loop, on any list of issues \<open>xs\<close>: its result has no
  two issues with the same key, has exactly the keys of \<open>xs\<close>, is a subsequence of \<open>xs\<close>
  (so the order of \<open>xs\<close> is kept), and each issue it keeps is the first one of \<open>xs\<close>
  with its key.
\<close>

theorem scan_deduplicates:
  "(\<exists>raw res more. detector_output doc extended = Inr raw
       \<and> res = dedup_loop Map.empty [] raw
       \<and> scan_doc_for_issues doc extended = Inr res
       \<and> scan_now doc extended unmatched_open = Inr (res @ more)
       \<and> distinct (map issue_key (res @ more)))
   \<and> distinct (map issue_key (dedup_loop Map.empty [] xs))
   \<and> issue_key ` set (dedup_loop Map.empty [] xs) = issue_key ` set xs
   \<and> subseq (dedup_loop Map.empty [] xs) xs
   \<and> (\<forall>x\<in>set (dedup_loop Map.empty [] xs).
         \<exists>us vs. xs = us @ x # vs \<and> issue_key x \<notin> issue_key ` set us)"
proof -
  have e: "dedup_loop Map.empty [] ys = firsts issue_key {} ys" for ys
    using dedup_loop_firsts [of Map.empty "[]" ys] by simp
  obtain raw found where r: "detector_output doc extended = Inr raw"
      "extended_unmatched_open_paren doc = Inr found"
      "scan_doc_for_issues doc extended = Inr (firsts issue_key {} raw)"
      "scan_now doc extended unmatched_open
        = Inr (firsts issue_key {} raw @ (if unmatched_open then found else []))"
    using scan_now_total [of doc extended unmatched_open] by blast
  define res where "res = firsts issue_key {} raw"
  define rest where "rest = (if unmatched_open then found else [])"
  have d: "distinct (map issue_key res)" unfolding res_def by (rule firsts_distinct)
  have "distinct (map issue_key (res @ rest))"
  proof (cases "rest = []")
    case True
    with d show ?thesis by simp
  next
    case False
    then have f: "rest = found" "found \<noteq> []" by (auto simp: rest_def split: if_splits)
    then obtain it where it: "it \<in> set found" by (cases found) auto
    from open_paren_ok [OF r(2) it] have m: "found = [it]" "kind it = ''paren-extra-open''"
      by (auto simp: unmatched_open_issue_def)
    have "issue_key it \<notin> issue_key ` set res"
    proof
      assume "issue_key it \<in> issue_key ` set res"
      then obtain x where x: "x \<in> set res" "issue_key x = issue_key it" by auto
      from x(1) firsts_subset [of issue_key "{}" raw] have "x \<in> set raw" unfolding res_def by blast
      from raw_issue_not_open [OF r(1) this] x(2) m(2) show False
        by (simp add: issue_key_def)
    qed
    with d f(1) m(1) show ?thesis by simp
  qed
  with r have 1: "\<exists>raw res more. detector_output doc extended = Inr raw
       \<and> res = dedup_loop Map.empty [] raw
       \<and> scan_doc_for_issues doc extended = Inr res
       \<and> scan_now doc extended unmatched_open = Inr (res @ more)
       \<and> distinct (map issue_key (res @ more))"
    unfolding e res_def rest_def by blast
  have 2: "distinct (map issue_key (dedup_loop Map.empty [] xs))"
    unfolding e by (rule firsts_distinct)
  have 3: "issue_key ` set (dedup_loop Map.empty [] xs) = issue_key ` set xs"
    unfolding e by (simp add: firsts_keys)
  have 4: "subseq (dedup_loop Map.empty [] xs) xs"
    unfolding e by (rule firsts_subseq)
  have 5: "\<forall>x\<in>set (dedup_loop Map.empty [] xs).
         \<exists>us vs. xs = us @ x # vs \<and> issue_key x \<notin> issue_key ` set us"
    unfolding e using firsts_first by fast
  from 1 2 3 4 5 show ?thesis by (intro conjI)
qed

theorem scan_deduplicates_witness:
  "(\<exists>res more. scan_doc_for_issues ''DoThing(x));\<newline>'' True = Inr res
       \<and> scan_now ''DoThing(x));\<newline>'' True True = Inr (res @ more)
       \<and> map (fst \<circ> issue_key) (res @ more) = [''paren-balance'', ''paren-extra-close'']
       \<and> distinct (map issue_key (res @ more)))
   \<and> map (fst \<circ> issue_key)
        (dedup_loop Map.empty [] (paren_balance_issues ''('' @ paren_balance_issues ''(''))
      = [''paren-balance'']
   \<and> distinct (map issue_key
        (dedup_loop Map.empty [] (paren_balance_issues ''('' @ paren_balance_issues ''('')))
   \<and> subseq (dedup_loop Map.empty [] (paren_balance_issues ''('' @ paren_balance_issues ''(''))
        (paren_balance_issues ''('' @ paren_balance_issues ''('')"
proof -
  note t = scan_deduplicates [of "''DoThing(x));\<newline>''" True True
      "paren_balance_issues ''('' @ paren_balance_issues ''(''"]
  from t obtain res found where s: "scan_doc_for_issues ''DoThing(x));\<newline>'' True = Inr res"
    "scan_now ''DoThing(x));\<newline>'' True True = Inr (res @ found)"
    "distinct (map issue_key (res @ found))"
    by blast
  from s(2) scan_example_keys
  have k: "map issue_key (res @ found)
     = [(''paren-balance'', 1, ''Unbalanced parentheses: More '' @ [CHR 0x27] @ '')'' @ [CHR 0x27]
             @ '' than '' @ [CHR 0x27] @ ''('' @ [CHR 0x27] @ ''.'', (0, 13)),
        (''paren-extra-close'', 1, ''Unmatched '' @ [CHR 0x27] @ '')'' @ [CHR 0x27] @ '' at line 1.'',
             (10, 11))]"
    by (simp del: map_append)
  have "map (fst \<circ> issue_key) (res @ found) = map fst (map issue_key (res @ found))"
    by (simp del: map_append)
  also have "\<dots> = [''paren-balance'', ''paren-extra-close'']"
    unfolding k by simp
  finally have "map (fst \<circ> issue_key) (res @ found) = [''paren-balance'', ''paren-extra-close'']" .
  with s have 1: "\<exists>res more. scan_doc_for_issues ''DoThing(x));\<newline>'' True = Inr res
       \<and> scan_now ''DoThing(x));\<newline>'' True True = Inr (res @ more)
       \<and> map (fst \<circ> issue_key) (res @ more) = [''paren-balance'', ''paren-extra-close'']
       \<and> distinct (map issue_key (res @ more))"
    by (intro exI [of _ res] exI [of _ found]) simp
  have 2: "map (fst \<circ> issue_key)
        (dedup_loop Map.empty [] (paren_balance_issues ''('' @ paren_balance_issues ''(''))
      = [''paren-balance'']"
    by (simp add: paren_balance_issues_def count_char_def Let_def issue_key_def)
  from t have 3: "distinct (map issue_key
        (dedup_loop Map.empty [] (paren_balance_issues ''('' @ paren_balance_issues ''('')))"
    by (elim conjE)
  from t have 4: "subseq (dedup_loop Map.empty [] (paren_balance_issues ''('' @ paren_balance_issues ''(''))
        (paren_balance_issues ''('' @ paren_balance_issues ''('')"
    by (elim conjE)
  from 1 2 3 4 show ?thesis by (intro conjI)
qed

subsection \<open>What the repairs keep from detection time (C1)\<close>




end
